theory Spec2Isabelle
  imports Main "HOL-Library.Sublist"
begin

section \<open>Event archive ingestion (gh/archive.ts): the model\<close>

subsection \<open>JavaScript values and errors\<close>

text \<open>
  A decoded JSON value. An object is the list of its own enumerable properties in
  \<^verbatim>\<open>Object.keys\<close> order. A number is kept as its canonical rendering (the text that
  \<^verbatim>\<open>String(n)\<close> returns), since the pipeline never computes with the numbers of a record.
  Strings are lists of \<^typ>\<open>char\<close>.
\<close>

datatype jsval =
    JUndefined
  | JNull
  | JBool bool
  | JNum string
  | JStr string
  | JArr "jsval list"
  | JObj "(string \<times> jsval) list"

text \<open>
  What a \<^verbatim>\<open>throw\<close> carries: a TypeError of the language or of the runtime,
  \<^verbatim>\<open>new Error(message)\<close>, an error of SQLite with its message, the error (a TypeError or
  a RangeError) that better-sqlite3 throws when it cannot bind the arguments of a
  statement, and an error of the file system with its code (\<^verbatim>\<open>ENOENT\<close>).
\<close>

datatype error =
    TypeError
  | Error string
  | SqliteError string
  | BindError
  | SystemError string

subsection \<open>Strings and decimal numerals\<close>

text \<open>
  The white space of \<^verbatim>\<open>String.prototype.trim\<close>, of \<^verbatim>\<open>\s\<close> and of \<^verbatim>\<open>parseInt\<close>, among
  the characters below 256: tab, line feed, vertical tab, form feed, carriage return,
  space and no-break space.
\<close>

definition is_space :: "char \<Rightarrow> bool" where
  "is_space c = (c \<in> set [CHR 0x09, CHR 0x0A, CHR 0x0B, CHR 0x0C, CHR 0x0D, CHR 0x20, CHR 0xA0])"

text \<open>\<^verbatim>\<open>\d\<close>: the ten ASCII digits.\<close>

definition is_digit :: "char \<Rightarrow> bool" where
  "is_digit c = (c \<in> set ''0123456789'')"

definition digit_value :: "char \<Rightarrow> nat" where
  "digit_value c = of_char c - 48"

definition digit_char :: "nat \<Rightarrow> char" where
  "digit_char d = ''0123456789'' ! (d mod 10)"

text \<open>\<^verbatim>\<open>String(n)\<close> for a natural number and for an integer.\<close>

fun dec :: "nat \<Rightarrow> string" where
  "dec n = (if n < 10 then [digit_char n] else dec (n div 10) @ [digit_char (n mod 10)])"

declare dec.simps [simp del]

definition dec_int :: "int \<Rightarrow> string" where
  "dec_int i = (if i < 0 then CHR ''-'' # dec (nat (- i)) else dec (nat i))"

text \<open>\<^verbatim>\<open>s.padStart(2, "0")\<close>.\<close>

definition padStart2 :: "string \<Rightarrow> string" where
  "padStart2 s = replicate (2 - length s) (CHR ''0'') @ s"

text \<open>\<^verbatim>\<open>s.split(c)\<close> for a one-character separator: never empty, one more piece than separators.\<close>

fun split_char :: "char \<Rightarrow> string \<Rightarrow> string list" where
  "split_char c [] = [[]]"
| "split_char c (x # xs) =
     (if x = c then [] # split_char c xs
      else (case split_char c xs of
              l # ls \<Rightarrow> (x # l) # ls
            | [] \<Rightarrow> [[x]]))"

text \<open>\<^verbatim>\<open>s.trim()\<close>.\<close>

definition trim :: "string \<Rightarrow> string" where
  "trim s = rev (dropWhile is_space (rev (dropWhile is_space s)))"

text \<open>
  \<^verbatim>\<open>parseInt(s, 10)\<close>: leading white space is skipped, one sign is read, then the longest
  run of digits; what follows the digits is ignored. \<open>None\<close> is \<^verbatim>\<open>NaN\<close> (no digit where
  one is expected). The value is the exact integer: the rounding to a double keeps the
  order, so it changes no comparison with 0 or 23.
\<close>

definition parseInt :: "string \<Rightarrow> int option" where
  "parseInt s =
     (let s1 = dropWhile is_space s;
          neg = (case s1 of c # _ \<Rightarrow> c = CHR ''-'' | [] \<Rightarrow> False);
          s2 = (case s1 of c # r \<Rightarrow> (if c = CHR ''-'' \<or> c = CHR ''+'' then r else s1) | [] \<Rightarrow> s1);
          ds = takeWhile is_digit s2;
          n = int (foldl (\<lambda>a c. 10 * a + digit_value c) 0 ds)
      in if ds = [] then None else Some (if neg then - n else n))"

subsection \<open>Argument parsing (archive.ts:16-35)\<close>

text \<open>
  The calendar of the runtime's \<^verbatim>\<open>Date\<close>: year, month (1 to 12) and day of the month of
  a day counted from 1970-01-01 in UTC, in the proleptic Gregorian calendar.
\<close>

definition civil_from_days :: "int \<Rightarrow> int \<times> int \<times> int" where
  "civil_from_days z0 =
     (let z = z0 + 719468;
          era = z div 146097;
          doe = z - era * 146097;
          yoe = (doe - doe div 1460 + doe div 36524 - doe div 146096) div 365;
          y = yoe + era * 400;
          doy = doe - (365 * yoe + yoe div 4 - yoe div 100);
          mp = (5 * doy + 2) div 153;
          d = doy - (153 * mp + 2) div 5 + 1;
          m = (if mp < 10 then mp + 3 else mp - 9)
      in (if m \<le> 2 then y + 1 else y, m, d))"

definition msPerDay :: int where
  "msPerDay = 86400000"

text \<open>\<^verbatim>\<open>/^\d{4}-\d{2}-\d{2}$/.test(date)\<close>.\<close>

definition date_format :: "string \<Rightarrow> bool" where
  "date_format date =
     (case date of
        [y1, y2, y3, y4, h1, m1, m2, h2, d1, d2] \<Rightarrow>
          is_digit y1 \<and> is_digit y2 \<and> is_digit y3 \<and> is_digit y4 \<and> h1 = CHR ''-'' \<and>
          is_digit m1 \<and> is_digit m2 \<and> h2 = CHR ''-'' \<and> is_digit d1 \<and> is_digit d2
      | _ \<Rightarrow> False)"

text \<open>
  \<open>now\<close> is the time value of \<^verbatim>\<open>new Date()\<close>, in milliseconds since the epoch, and \<open>args\<close>
  is \<^verbatim>\<open>process.argv.slice(2)\<close>. \<^verbatim>\<open>setUTCDate(getUTCDate() - 1)\<close> moves the date one day
  back (day 0 of a month is the last day of the month before).
\<close>

definition parseArgs :: "int \<Rightarrow> string list \<Rightarrow> error + (string \<times> int)" where
  "parseArgs now args =
     (case args of
        [] \<Rightarrow>
          (let yesterday = now - msPerDay;
               (y, m, d) = civil_from_days (yesterday div msPerDay)
           in Inr (dec_int y @ ''-'' @ padStart2 (dec_int m) @ ''-'' @ padStart2 (dec_int d), 0))
      | date # rest \<Rightarrow>
          if \<not> date_format date
          then Inl (Error (''Invalid date format: '' @ date @ ''. Expected YYYY-MM-DD''))
          else
            (let hour = (case rest of [] \<Rightarrow> Some 0 | a # _ \<Rightarrow> parseInt a);
                 arg1 = (case rest of [] \<Rightarrow> ''undefined'' | a # _ \<Rightarrow> a)
             in case hour of
                  None \<Rightarrow> Inl (Error (''Invalid hour: '' @ arg1 @ ''. Expected 0-23''))
                | Some h \<Rightarrow>
                    if h < 0 \<or> h > 23
                    then Inl (Error (''Invalid hour: '' @ arg1 @ ''. Expected 0-23''))
                    else Inr (date, h)))"

subsection \<open>Download (archive.ts:39-63)\<close>

text \<open>
  \<^verbatim>\<open>createWriteStream(dest)\<close> opens \<open>dest\<close> in the background, so the file appears at some
  moment after the call: before \<^verbatim>\<open>get\<close> answers, after that, or not before the process
  ends.
\<close>

datatype moment = Before | After | Never

text \<open>
  What \<^verbatim>\<open>get(url, callback)\<close> does with the string it is given. It throws at once, and asks
  nothing, when the string is no absolute URL or names a protocol other than
  \<^verbatim>\<open>https:\<close> (a relative or empty Location, an \<^verbatim>\<open>http:\<close> one). Otherwise it asks, and
  either the callback gets a response (status code, Location header, body) or the
  request emits \<^verbatim>\<open>error\<close>. The source asserts that a redirect names its target
  (\<^verbatim>\<open>response.headers.location!\<close>). Each reply comes with the moment at which \<open>dest\<close>
  appears. A server is a function from the string given to \<^verbatim>\<open>get\<close>.
\<close>

datatype response =
    Throws error moment
  | Response nat string string moment
  | TransportError error moment

text \<open>
  How a call of \<open>download\<close> ends: its promise resolves, its promise rejects, or an
  exception leaves the response callback, which no promise catches and which ends the
  process.
\<close>

datatype outcome =
    Resolved
  | Rejected error
  | Crashed error

text \<open>What a write stream that nobody removes leaves at \<open>dest\<close>: an empty file, once open.\<close>

definition leftover :: "moment \<Rightarrow> string option" where
  "leftover opened = (if opened = Never then None else Some [])"

text \<open>
  \<open>download\<close>, called when \<open>dest\<close> does not exist (as \<open>main\<close> does; a redirect removes
  \<open>dest\<close> before it asks again). The result is \<open>None\<close> when the promise never settles and
  otherwise the outcome, what is at \<open>dest\<close> then (\<open>None\<close>: no file), and the URLs asked
  for so far.

  \<^item> \<^verbatim>\<open>get\<close> throws inside the executor of the promise, which rejects with what was
    thrown; the write stream stays.
  \<^item> On 301 and 302, and on any other status that is not 200, \<^verbatim>\<open>unlinkSync(dest)\<close> runs
    unguarded in the response callback: when \<open>dest\<close> is not there yet it throws
    \<^verbatim>\<open>ENOENT\<close> out of the callback.
  \<^item> On \<^verbatim>\<open>error\<close> the \<^verbatim>\<open>unlinkSync\<close> is guarded.
\<close>

partial_function (option) download ::
  "(string \<Rightarrow> response) \<Rightarrow> string \<Rightarrow> string list
     \<Rightarrow> (outcome \<times> string option \<times> string list) option" where
  "download server url requests =
     (case server url of
        Throws err opened \<Rightarrow> Some (Rejected err, leftover opened, requests)
      | Response code loc content opened \<Rightarrow>
          if code = 301 \<or> code = 302
          then (if opened = Before then download server loc (requests @ [url])
                else Some (Crashed (SystemError ''ENOENT''), leftover opened, requests @ [url]))
          else if code \<noteq> 200
          then (if opened = Before
                then Some (Rejected (Error (''HTTP '' @ dec code @ '' for '' @ url)), None,
                           requests @ [url])
                else Some (Crashed (SystemError ''ENOENT''), leftover opened, requests @ [url]))
          else Some (Resolved, Some content, requests @ [url])
      | TransportError err opened \<Rightarrow>
          Some (Rejected err, (if opened = Before then None else leftover opened),
                requests @ [url]))"

subsection \<open>Reading, converting and serialising values\<close>

text \<open>
  \<^verbatim>\<open>v.k\<close> and \<^verbatim>\<open>v[k]\<close> on a value that is neither \<^verbatim>\<open>null\<close> nor \<^verbatim>\<open>undefined\<close>, for the
  keys archive.ts reads: its fixed identifiers (none of which a prototype, an array or
  a string defines) and the own keys of a record. Reading from \<^verbatim>\<open>null\<close> or
  \<^verbatim>\<open>undefined\<close> throws; the callers below write that case out.
\<close>

definition property :: "jsval \<Rightarrow> string \<Rightarrow> jsval" where
  "property v k =
     (case v of
        JObj kvs \<Rightarrow> (case map_of kvs k of Some x \<Rightarrow> x | None \<Rightarrow> JUndefined)
      | _ \<Rightarrow> JUndefined)"

definition nullish :: "jsval \<Rightarrow> bool" where
  "nullish v = (v = JUndefined \<or> v = JNull)"

text \<open>\<^verbatim>\<open>a ?? b\<close>.\<close>

definition coalesce :: "jsval \<Rightarrow> jsval \<Rightarrow> jsval" where
  "coalesce a b = (if nullish a then b else a)"

text \<open>Truthiness: \<^verbatim>\<open>undefined\<close>, \<^verbatim>\<open>null\<close>, \<^verbatim>\<open>false\<close>, zero, \<^verbatim>\<open>NaN\<close> and \<^verbatim>\<open>""\<close> are falsy.\<close>

definition truthy :: "jsval \<Rightarrow> bool" where
  "truthy v =
     (case v of
        JUndefined \<Rightarrow> False
      | JNull \<Rightarrow> False
      | JBool b \<Rightarrow> b
      | JNum n \<Rightarrow> n \<noteq> ''0'' \<and> n \<noteq> ''NaN''
      | JStr t \<Rightarrow> t \<noteq> []
      | _ \<Rightarrow> True)"

text \<open>\<^verbatim>\<open>a || {}\<close>.\<close>

definition or_empty :: "jsval \<Rightarrow> jsval" where
  "or_empty a = (if truthy a then a else JObj [])"

text \<open>\<^verbatim>\<open>parts.join(sep)\<close> on strings.\<close>

fun join :: "string \<Rightarrow> string list \<Rightarrow> string" where
  "join sep [] = []"
| "join sep [l] = l"
| "join sep (l # l' # ls) = l @ sep @ join sep (l' # ls)"

text \<open>
  \<^verbatim>\<open>String(v)\<close>, which is also how \<^verbatim>\<open>o[v]\<close> turns \<open>v\<close> into a property key. An array
  joins its elements with commas, \<^verbatim>\<open>null\<close> and \<^verbatim>\<open>undefined\<close> elements as empty strings.
  A decoded object has the inherited \<^verbatim>\<open>toString\<close> unless an own property of that name
  hides it; the own property is not callable, \<^verbatim>\<open>valueOf\<close> returns the object, and the
  conversion throws a TypeError.
\<close>

fun ToString :: "jsval \<Rightarrow> error + string"
  and ToString_elements :: "jsval list \<Rightarrow> error + string list" where
  "ToString JUndefined = Inr ''undefined''"
| "ToString JNull = Inr ''null''"
| "ToString (JBool b) = Inr (if b then ''true'' else ''false'')"
| "ToString (JNum n) = Inr n"
| "ToString (JStr t) = Inr t"
| "ToString (JArr xs) =
     (case ToString_elements xs of Inl e \<Rightarrow> Inl e | Inr parts \<Rightarrow> Inr (join '','' parts))"
| "ToString (JObj kvs) =
     (if ''toString'' \<in> set (map fst kvs) then Inl TypeError else Inr ''[object Object]'')"
| "ToString_elements [] = Inr []"
| "ToString_elements (x # xs) =
     (case (if x = JUndefined \<or> x = JNull then Inr [] else ToString x) of
        Inl e \<Rightarrow> Inl e
      | Inr part \<Rightarrow>
          (case ToString_elements xs of Inl e \<Rightarrow> Inl e | Inr parts \<Rightarrow> Inr (part # parts)))"

text \<open>
  \<^verbatim>\<open>JSON.stringify\<close>. A string is quoted with the quotation mark, the backslash and the
  control characters escaped.
\<close>

definition hex_digit :: "nat \<Rightarrow> char" where
  "hex_digit d = ''0123456789abcdef'' ! (d mod 16)"

definition escape_char :: "char \<Rightarrow> string" where
  "escape_char c =
     (if c = CHR 0x22 then [CHR 0x5C, CHR 0x22]
      else if c = CHR 0x5C then [CHR 0x5C, CHR 0x5C]
      else if c = CHR 0x08 then [CHR 0x5C, CHR ''b'']
      else if c = CHR 0x09 then [CHR 0x5C, CHR ''t'']
      else if c = CHR 0x0A then [CHR 0x5C, CHR ''n'']
      else if c = CHR 0x0C then [CHR 0x5C, CHR ''f'']
      else if c = CHR 0x0D then [CHR 0x5C, CHR ''r'']
      else if (of_char c :: nat) < 32
      then [CHR 0x5C, CHR ''u'', CHR ''0'', CHR ''0'',
            hex_digit (of_char c div 16), hex_digit (of_char c)]
      else [c])"

definition quote :: "string \<Rightarrow> string" where
  "quote t = CHR 0x22 # concat (map escape_char t) @ [CHR 0x22]"

fun serialize :: "jsval \<Rightarrow> string"
  and serialize_elements :: "jsval list \<Rightarrow> string list"
  and serialize_properties :: "(string \<times> jsval) list \<Rightarrow> string list" where
  "serialize JUndefined = ''null''"
| "serialize JNull = ''null''"
| "serialize (JBool b) = (if b then ''true'' else ''false'')"
| "serialize (JNum n) = (if n \<in> set [''NaN'', ''Infinity'', ''-Infinity''] then ''null'' else n)"
| "serialize (JStr t) = quote t"
| "serialize (JArr xs) = ''['' @ join '','' (serialize_elements xs) @ '']''"
| "serialize (JObj kvs) = ''{'' @ join '','' (serialize_properties kvs) @ ''}''"
| "serialize_elements [] = []"
| "serialize_elements (x # xs) = serialize x # serialize_elements xs"
| "serialize_properties [] = []"
| "serialize_properties (kv # kvs) =
     (if snd kv = JUndefined then serialize_properties kvs
      else (quote (fst kv) @ '':'' @ serialize (snd kv)) # serialize_properties kvs)"

text \<open>\<^verbatim>\<open>JSON.stringify(v)\<close>: \<^verbatim>\<open>undefined\<close> for \<^verbatim>\<open>undefined\<close>, the text otherwise.\<close>

definition JSON_stringify :: "jsval \<Rightarrow> jsval" where
  "JSON_stringify v = (if v = JUndefined then JUndefined else JStr (serialize v))"

subsection \<open>The schema registry (archive.ts:78-173)\<close>

text \<open>\<^verbatim>\<open>function json(v) { return v != null ? JSON.stringify(v) : null; }\<close>\<close>

definition json :: "jsval \<Rightarrow> jsval" where
  "json v = (if \<not> nullish v then JSON_stringify v else JNull)"

record EventSchema =
  table :: string
  columns :: string
  extraIndexes :: "string list option"
  extract_fn :: "jsval \<Rightarrow> error + jsval list"

text \<open>
  The body of an \<open>extract\<close> that reads properties of its argument \<open>p\<close>: the first read
  throws a TypeError when \<open>p\<close> is \<^verbatim>\<open>null\<close> or \<^verbatim>\<open>undefined\<close>.
\<close>

definition reading :: "jsval \<Rightarrow> jsval list \<Rightarrow> error + jsval list" where
  "reading p vs = (if nullish p then Inl TypeError else Inr vs)"

definition EVENT_SCHEMAS :: "(string \<times> EventSchema) list" where
  "EVENT_SCHEMAS =
    [(''PushEvent'', \<lparr>
        table = ''push_events'',
        columns = ''repository_id INTEGER, push_id INTEGER, ref TEXT, head TEXT, before_sha TEXT'',
        extraIndexes = None,
        extract_fn = (\<lambda>p. reading p
          [coalesce (property p ''repository_id'') JNull, coalesce (property p ''push_id'') JNull,
           coalesce (property p ''ref'') JNull, coalesce (property p ''head'') JNull,
           coalesce (property p ''before'') JNull]) \<rparr>),
     (''PullRequestEvent'', \<lparr>
        table = ''pull_request_events'',
        columns = ''action TEXT, number INTEGER, pull_request TEXT, label TEXT, labels TEXT, assignee TEXT, assignees TEXT'',
        extraIndexes = Some [''CREATE INDEX idx_pull_request_events_action ON pull_request_events(action)''],
        extract_fn = (\<lambda>p. reading p
          [coalesce (property p ''action'') JNull, coalesce (property p ''number'') JNull,
           json (property p ''pull_request''), json (property p ''label''), json (property p ''labels''),
           json (property p ''assignee''), json (property p ''assignees'')]) \<rparr>),
     (''IssuesEvent'', \<lparr>
        table = ''issues_events'',
        columns = ''action TEXT, issue TEXT, label TEXT, labels TEXT, assignee TEXT, assignees TEXT'',
        extraIndexes = Some [''CREATE INDEX idx_issues_events_action ON issues_events(action)''],
        extract_fn = (\<lambda>p. reading p
          [coalesce (property p ''action'') JNull, json (property p ''issue''), json (property p ''label''),
           json (property p ''labels''), json (property p ''assignee''), json (property p ''assignees'')]) \<rparr>),
     (''IssueCommentEvent'', \<lparr>
        table = ''issue_comment_events'',
        columns = ''action TEXT, issue TEXT, comment TEXT'',
        extraIndexes = None,
        extract_fn = (\<lambda>p. reading p
          [coalesce (property p ''action'') JNull, json (property p ''issue''), json (property p ''comment'')]) \<rparr>),
     (''CreateEvent'', \<lparr>
        table = ''create_events'',
        columns = ''ref TEXT, ref_type TEXT, full_ref TEXT, master_branch TEXT, description TEXT, pusher_type TEXT'',
        extraIndexes = Some [''CREATE INDEX idx_create_events_ref_type ON create_events(ref_type)''],
        extract_fn = (\<lambda>p. reading p
          [coalesce (property p ''ref'') JNull, coalesce (property p ''ref_type'') JNull,
           coalesce (property p ''full_ref'') JNull, coalesce (property p ''master_branch'') JNull,
           coalesce (property p ''description'') JNull, coalesce (property p ''pusher_type'') JNull]) \<rparr>),
     (''DeleteEvent'', \<lparr>
        table = ''delete_events'',
        columns = ''ref TEXT, ref_type TEXT, full_ref TEXT, pusher_type TEXT'',
        extraIndexes = None,
        extract_fn = (\<lambda>p. reading p
          [coalesce (property p ''ref'') JNull, coalesce (property p ''ref_type'') JNull,
           coalesce (property p ''full_ref'') JNull, coalesce (property p ''pusher_type'') JNull]) \<rparr>),
     (''WatchEvent'', \<lparr>
        table = ''watch_events'',
        columns = ''action TEXT'',
        extraIndexes = None,
        extract_fn = (\<lambda>p. reading p [coalesce (property p ''action'') JNull]) \<rparr>),
     (''ForkEvent'', \<lparr>
        table = ''fork_events'',
        columns = ''action TEXT, forkee TEXT'',
        extraIndexes = None,
        extract_fn = (\<lambda>p. reading p [coalesce (property p ''action'') JNull, json (property p ''forkee'')]) \<rparr>),
     (''ReleaseEvent'', \<lparr>
        table = ''release_events'',
        columns = ''action TEXT, release TEXT'',
        extraIndexes = None,
        extract_fn = (\<lambda>p. reading p [coalesce (property p ''action'') JNull, json (property p ''release'')]) \<rparr>),
     (''MemberEvent'', \<lparr>
        table = ''member_events'',
        columns = ''action TEXT, member TEXT'',
        extraIndexes = None,
        extract_fn = (\<lambda>p. reading p [coalesce (property p ''action'') JNull, json (property p ''member'')]) \<rparr>),
     (''CommitCommentEvent'', \<lparr>
        table = ''commit_comment_events'',
        columns = ''action TEXT, comment TEXT'',
        extraIndexes = None,
        extract_fn = (\<lambda>p. reading p [coalesce (property p ''action'') JNull, json (property p ''comment'')]) \<rparr>),
     (''PublicEvent'', \<lparr>
        table = ''public_events'',
        columns = [],
        extraIndexes = None,
        extract_fn = (\<lambda>p. Inr []) \<rparr>),
     (''GollumEvent'', \<lparr>
        table = ''gollum_events'',
        columns = ''pages TEXT'',
        extraIndexes = None,
        extract_fn = (\<lambda>p. reading p [json (property p ''pages'')]) \<rparr>),
     (''PullRequestReviewEvent'', \<lparr>
        table = ''pull_request_review_events'',
        columns = ''action TEXT, review TEXT, pull_request TEXT'',
        extraIndexes = None,
        extract_fn = (\<lambda>p. reading p
          [coalesce (property p ''action'') JNull, json (property p ''review''), json (property p ''pull_request'')]) \<rparr>),
     (''PullRequestReviewCommentEvent'', \<lparr>
        table = ''pull_request_review_comment_events'',
        columns = ''action TEXT, comment TEXT, pull_request TEXT'',
        extraIndexes = None,
        extract_fn = (\<lambda>p. reading p
          [coalesce (property p ''action'') JNull, json (property p ''comment''), json (property p ''pull_request'')]) \<rparr>),
     (''DiscussionEvent'', \<lparr>
        table = ''discussion_events'',
        columns = ''action TEXT, discussion TEXT'',
        extraIndexes = None,
        extract_fn = (\<lambda>p. reading p [coalesce (property p ''action'') JNull, json (property p ''discussion'')]) \<rparr>)]"

text \<open>
  The payload property that each value of an \<open>extract\<close> reads, in the order of the values
  (archive.ts:93-171; \<open>before_sha\<close> is read from \<^verbatim>\<open>p.before\<close>).
\<close>

definition payload_keys :: "(string \<times> string list) list" where
  "payload_keys =
    [(''PushEvent'', [''repository_id'', ''push_id'', ''ref'', ''head'', ''before'']),
     (''PullRequestEvent'', [''action'', ''number'', ''pull_request'', ''label'', ''labels'', ''assignee'', ''assignees'']),
     (''IssuesEvent'', [''action'', ''issue'', ''label'', ''labels'', ''assignee'', ''assignees'']),
     (''IssueCommentEvent'', [''action'', ''issue'', ''comment'']),
     (''CreateEvent'', [''ref'', ''ref_type'', ''full_ref'', ''master_branch'', ''description'', ''pusher_type'']),
     (''DeleteEvent'', [''ref'', ''ref_type'', ''full_ref'', ''pusher_type'']),
     (''WatchEvent'', [''action'']),
     (''ForkEvent'', [''action'', ''forkee'']),
     (''ReleaseEvent'', [''action'', ''release'']),
     (''MemberEvent'', [''action'', ''member'']),
     (''CommitCommentEvent'', [''action'', ''comment'']),
     (''PublicEvent'', []),
     (''GollumEvent'', [''pages'']),
     (''PullRequestReviewEvent'', [''action'', ''review'', ''pull_request'']),
     (''PullRequestReviewCommentEvent'', [''action'', ''comment'', ''pull_request'']),
     (''DiscussionEvent'', [''action'', ''discussion''])]"

text \<open>
  What \<^verbatim>\<open>EVENT_SCHEMAS[key]\<close> gives for a key that is no entry of the registry: the
  registry is an object literal, so the names of \<^verbatim>\<open>Object.prototype\<close> read as inherited
  (truthy) values that have no \<open>extract\<close>.
\<close>

definition Object_prototype_names :: "string list" where
  "Object_prototype_names =
    [''constructor'', ''__defineGetter__'', ''__defineSetter__'', ''hasOwnProperty'',
     ''__lookupGetter__'', ''__lookupSetter__'', ''isPrototypeOf'', ''propertyIsEnumerable'',
     ''toString'', ''valueOf'', ''__proto__'', ''toLocaleString'']"

subsection \<open>Common columns (archive.ts:177-228)\<close>

text \<open>\<^verbatim>\<open>s.split(/\s+/)\<close>: the pieces between the maximal runs of white space.\<close>

function split_space :: "string \<Rightarrow> string list" where
  "split_space [] = [[]]"
| "split_space (x # xs) =
     (if is_space x then [] # split_space (dropWhile is_space xs)
      else (case split_space xs of
              l # ls \<Rightarrow> (x # l) # ls
            | [] \<Rightarrow> [[x]]))"
  by pat_completeness auto
termination
  by (relation "measure length") (auto simp: length_dropWhile_le less_Suc_eq_le)

text \<open>
  \<^verbatim>\<open>
  function columnNames(ddl: string): string[] {
    if (!ddl) return [];
    return ddl.split(",").map(col => col.trim().split(/\s+/)[0]);
  }
  \<close>
\<close>

definition columnNames :: "string \<Rightarrow> string list" where
  "columnNames ddl =
     (if ddl = [] then []
      else map (\<lambda>col. case split_space (trim col) of name # _ \<Rightarrow> name | [] \<Rightarrow> [])
             (split_char (CHR '','') ddl))"

definition COMMON_DDL :: string where
  "COMMON_DDL =
     ''\<newline>  id TEXT PRIMARY KEY,'' @
     ''\<newline>  created_at TEXT NOT NULL,'' @
     ''\<newline>  public INTEGER NOT NULL DEFAULT 1,'' @
     ''\<newline>  actor_id INTEGER,'' @
     ''\<newline>  actor_login TEXT,'' @
     ''\<newline>  actor_display_login TEXT,'' @
     ''\<newline>  actor_gravatar_id TEXT,'' @
     ''\<newline>  actor_avatar_url TEXT,'' @
     ''\<newline>  actor_url TEXT,'' @
     ''\<newline>  repo_id INTEGER,'' @
     ''\<newline>  repo_name TEXT,'' @
     ''\<newline>  repo_url TEXT,'' @
     ''\<newline>  org_id INTEGER,'' @
     ''\<newline>  org_login TEXT,'' @
     ''\<newline>  org_gravatar_id TEXT,'' @
     ''\<newline>  org_avatar_url TEXT,'' @
     ''\<newline>  org_url TEXT,'' @
     ''\<newline>  other TEXT''"

definition COMMON_COLS :: string where
  "COMMON_COLS = join '', '' (columnNames COMMON_DDL)"

definition COMMON_PLACEHOLDERS :: string where
  "COMMON_PLACEHOLDERS = join '', '' (map (\<lambda>_. ''?'') (columnNames COMMON_DDL))"

definition KNOWN_EVENT_KEYS :: "string list" where
  "KNOWN_EVENT_KEYS = [''id'', ''type'', ''public'', ''created_at'', ''actor'', ''repo'', ''org'', ''payload'']"

text \<open>\<^verbatim>\<open>Object.keys(o)\<close> of a decoded object.\<close>

definition Object_keys :: "jsval \<Rightarrow> string list" where
  "Object_keys v = (case v of JObj kvs \<Rightarrow> map fst kvs | _ \<Rightarrow> [])"

text \<open>
  \<^verbatim>\<open>o[k] = v\<close> on an object made by \<^verbatim>\<open>{}\<close> (given by its own properties). The key
  \<^verbatim>\<open>__proto__\<close> is the accessor of \<^verbatim>\<open>Object.prototype\<close>: the assignment calls its setter,
  which changes the prototype or does nothing, and creates no own property.
\<close>

definition assign :: "(string \<times> jsval) list \<Rightarrow> string \<Rightarrow> jsval \<Rightarrow> (string \<times> jsval) list" where
  "assign own k v =
     (if k = ''__proto__'' then own
      else if k \<in> set (map fst own) then map (\<lambda>(k', v'). if k' = k then (k', v) else (k', v')) own
      else own @ [(k, v)])"

text \<open>
  \<^verbatim>\<open>
  const otherFields: Record<string, any> = {};
  for (const key of Object.keys(event)) {
    if (!KNOWN_EVENT_KEYS.has(key)) { otherFields[key] = event[key]; }
  }
  \<close>
\<close>

definition otherFields :: "jsval \<Rightarrow> (string \<times> jsval) list" where
  "otherFields event =
     foldl (\<lambda>own key. if key \<notin> set KNOWN_EVENT_KEYS then assign own key (property event key) else own)
       [] (Object_keys event)"

text \<open>
  archive.ts:207-228, for a record that is an object. \<^verbatim>\<open>String(event.id)\<close> can throw.
\<close>

definition commonValues :: "jsval \<Rightarrow> error + jsval list" where
  "commonValues event =
     (let actor = or_empty (property event ''actor'');
          repo = or_empty (property event ''repo'');
          org = or_empty (property event ''org'');
          other = otherFields event
      in case ToString (property event ''id'') of
           Inl e \<Rightarrow> Inl e
         | Inr ident \<Rightarrow> Inr
            [JStr ident,
             property event ''created_at'',
             (if property event ''public'' = JBool False then JNum ''0'' else JNum ''1''),
             coalesce (property actor ''id'') JNull, coalesce (property actor ''login'') JNull,
             coalesce (property actor ''display_login'') JNull, coalesce (property actor ''gravatar_id'') JNull,
             coalesce (property actor ''avatar_url'') JNull, coalesce (property actor ''url'') JNull,
             coalesce (property repo ''id'') JNull, coalesce (property repo ''name'') JNull,
             coalesce (property repo ''url'') JNull,
             coalesce (property org ''id'') JNull, coalesce (property org ''login'') JNull,
             coalesce (property org ''gravatar_id'') JNull, coalesce (property org ''avatar_url'') JNull,
             coalesce (property org ''url'') JNull,
             (if length other > 0 then JSON_stringify (JObj other) else JNull)])"

subsection \<open>The store: SQLite through better-sqlite3\<close>

text \<open>
  The store as far as archive.ts uses it: tables made by \<^verbatim>\<open>CREATE TABLE\<close> from a list of
  column definitions, and rows added by \<^verbatim>\<open>INSERT OR IGNORE\<close>. A stored row holds the bound
  values in the order of the table's columns (the conversions of SQLite's type affinity
  are left out, and so are the indexes, which hold no row).
\<close>

record column_def =
  col_name :: string
  not_null :: bool
  primary_key :: bool

record sql_table =
  table_columns :: "column_def list"
  table_rows :: "jsval list list"

type_synonym database = "string \<rightharpoonup> sql_table"

text \<open>Whether the words \<open>a b\<close> stand next to each other among the words of a definition.\<close>

definition adjacent :: "string \<Rightarrow> string \<Rightarrow> string list \<Rightarrow> bool" where
  "adjacent a b ws = ((a, b) \<in> set (zip ws (tl ws)))"

text \<open>One column definition of a \<^verbatim>\<open>CREATE TABLE\<close>: the name comes first, constraints follow.\<close>

definition parse_column :: "string \<Rightarrow> column_def" where
  "parse_column d =
     (let ws = split_space (trim d)
      in \<lparr> col_name = (case ws of name # _ \<Rightarrow> name | [] \<Rightarrow> []),
           not_null = adjacent ''NOT'' ''NULL'' ws,
           primary_key = adjacent ''PRIMARY'' ''KEY'' ws \<rparr>)"

text \<open>
  \<^verbatim>\<open>CREATE TABLE name (body)\<close>. SQLite refuses a table that exists and a column name given
  twice.
\<close>

definition create_table :: "string \<Rightarrow> string \<Rightarrow> database \<Rightarrow> error + database" where
  "create_table name body d =
     (let cols = map parse_column (split_char (CHR '','') body)
      in if d name \<noteq> None then Inl (SqliteError (''table '' @ name @ '' already exists''))
         else if \<not> distinct (map col_name cols) then Inl (SqliteError ''duplicate column name'')
         else Inr (d(name \<mapsto> \<lparr> table_columns = cols, table_rows = [] \<rparr>)))"

text \<open>A prepared \<^verbatim>\<open>INSERT OR IGNORE INTO target (columns) VALUES (?, ..., ?)\<close>.\<close>

record statement =
  target :: string
  target_columns :: "string list"
  parameters :: nat

text \<open>
  \<^verbatim>\<open>db.prepare\<close> of such an insert, given the table name, the text of the column list and
  the text of the placeholder list. SQLite refuses a table or a column that does not
  exist and a number of values that is not the number of columns.
\<close>

definition prepare_insert :: "database \<Rightarrow> string \<Rightarrow> string \<Rightarrow> string \<Rightarrow> error + statement" where
  "prepare_insert d name cols placeholders =
     (let names = map trim (split_char (CHR '','') cols);
          marks = map trim (split_char (CHR '','') placeholders)
      in case d name of
           None \<Rightarrow> Inl (SqliteError (''no such table: '' @ name))
         | Some t \<Rightarrow>
             if \<not> set names \<subseteq> set (map col_name (table_columns t))
             then Inl (SqliteError (''table '' @ name @ '' has no such column''))
             else if length marks \<noteq> length names
             then Inl (SqliteError ''values and columns differ in number'')
             else Inr \<lparr> target = name, target_columns = names,
                        parameters = length (filter (\<lambda>m. m = ''?'') marks) \<rparr>)"

text \<open>
  What better-sqlite3 binds: numbers, strings, \<^verbatim>\<open>null\<close> and \<^verbatim>\<open>undefined\<close>, the last two as
  \<^verbatim>\<open>NULL\<close>. An argument that is an array gives its elements as parameters; an argument
  that is a plain object names parameters (the statement has none, so it gives no
  parameter), and a second one is refused.
\<close>

definition bindable :: "jsval \<Rightarrow> bool" where
  "bindable v =
     (case v of
        JUndefined \<Rightarrow> True | JNull \<Rightarrow> True | JNum _ \<Rightarrow> True | JStr _ \<Rightarrow> True | _ \<Rightarrow> False)"

definition bound_value :: "jsval \<Rightarrow> jsval" where
  "bound_value v = (if v = JUndefined then JNull else v)"

fun bind_arguments :: "bool \<Rightarrow> jsval list \<Rightarrow> error + jsval list" where
  "bind_arguments named [] = Inr []"
| "bind_arguments named (a # args) =
     (case a of
        JArr xs \<Rightarrow>
          if list_all bindable xs
          then (case bind_arguments named args of
                  Inl e \<Rightarrow> Inl e
                | Inr vs \<Rightarrow> Inr (map bound_value xs @ vs))
          else Inl BindError
      | JObj _ \<Rightarrow> if named then Inl BindError else bind_arguments True args
      | _ \<Rightarrow>
          if bindable a
          then (case bind_arguments named args of
                  Inl e \<Rightarrow> Inl e
                | Inr vs \<Rightarrow> Inr (bound_value a # vs))
          else Inl BindError)"

text \<open>
  The row of a table for values bound to a statement's columns: a column the statement
  does not list is \<^verbatim>\<open>NULL\<close>.
\<close>

definition row_for :: "sql_table \<Rightarrow> string list \<Rightarrow> jsval list \<Rightarrow> jsval list" where
  "row_for t names vs =
     map (\<lambda>c. case map_of (zip names vs) (col_name c) of Some v \<Rightarrow> v | None \<Rightarrow> JNull)
       (table_columns t)"

text \<open>
  \<^verbatim>\<open>OR IGNORE\<close>: a row with \<^verbatim>\<open>NULL\<close> in a \<^verbatim>\<open>NOT NULL\<close> column, or whose value in a
  \<^verbatim>\<open>PRIMARY KEY\<close> column (if not \<^verbatim>\<open>NULL\<close>) is that of a stored row, is skipped in silence.
\<close>

definition violates :: "sql_table \<Rightarrow> jsval list \<Rightarrow> bool" where
  "violates t r =
     (\<exists>(c, v) \<in> set (zip (table_columns t) r).
        (not_null c \<and> v = JNull) \<or>
        (primary_key c \<and> v \<noteq> JNull \<and>
           (\<exists>r' \<in> set (table_rows t). (c, v) \<in> set (zip (table_columns t) r'))))"

text \<open>\<^verbatim>\<open>stmt.run(...values)\<close>.\<close>

definition run_insert :: "statement \<Rightarrow> jsval list \<Rightarrow> database \<Rightarrow> error + database" where
  "run_insert s args d =
     (case bind_arguments False args of
        Inl e \<Rightarrow> Inl e
      | Inr vs \<Rightarrow>
          if length vs \<noteq> parameters s then Inl BindError
          else (case d (target s) of
                  None \<Rightarrow> Inl (SqliteError (''no such table: '' @ target s))
                | Some t \<Rightarrow>
                    (let r = row_for t (target_columns s) vs
                     in if violates t r then Inr d
                        else Inr (d(target s \<mapsto> t\<lparr> table_rows := table_rows t @ [r] \<rparr>)))))"

subsection \<open>Database creation and insert preparation (archive.ts:232-267)\<close>

text \<open>
  The old store file and its side files are deleted first, so the new database starts
  with no table. For every schema, in the order of the registry:
  \<^verbatim>\<open>
  const extraCols = schema.columns ? `,\n      ${schema.columns}` : "";
  db.exec(`CREATE TABLE ${schema.table} (${COMMON_DDL}${extraCols}); ...`);
  \<close>
\<close>

definition table_body :: "EventSchema \<Rightarrow> string" where
  "table_body schema =
     (let extraCols = (if columns schema \<noteq> [] then '',\<newline>      '' @ columns schema else [])
      in COMMON_DDL @ extraCols)"

fun create_tables :: "EventSchema list \<Rightarrow> database \<Rightarrow> error + database" where
  "create_tables [] d = Inr d"
| "create_tables (schema # schemas) d =
     (case create_table (table schema) (table_body schema) d of
        Inl e \<Rightarrow> Inl e
      | Inr d' \<Rightarrow> create_tables schemas d')"

definition createArchiveDatabase :: "error + database" where
  "createArchiveDatabase = create_tables (map snd EVENT_SCHEMAS) Map.empty"

text \<open>
  \<^verbatim>\<open>
  const names = columnNames(schema.columns);
  const extraCols = names.length > 0 ? ", " + names.join(", ") : "";
  const extraPh = names.length > 0 ? ", " + names.map(() => "?").join(", ") : "";
  stmts[eventType] = db.prepare(
    `INSERT OR IGNORE INTO ${schema.table} (${COMMON_COLS}${extraCols}) VALUES (${COMMON_PLACEHOLDERS}${extraPh})`);
  \<close>
\<close>

definition insert_columns :: "EventSchema \<Rightarrow> string" where
  "insert_columns schema =
     (let names = columnNames (columns schema);
          extraCols = (if length names > 0 then '', '' @ join '', '' names else [])
      in COMMON_COLS @ extraCols)"

definition insert_placeholders :: "EventSchema \<Rightarrow> string" where
  "insert_placeholders schema =
     (let names = columnNames (columns schema);
          extraPh = (if length names > 0 then '', '' @ join '', '' (map (\<lambda>_. ''?'') names) else [])
      in COMMON_PLACEHOLDERS @ extraPh)"

fun prepare_all :: "database \<Rightarrow> (string \<times> EventSchema) list \<Rightarrow> error + (string \<rightharpoonup> statement)" where
  "prepare_all d [] = Inr Map.empty"
| "prepare_all d ((eventType, schema) # entries) =
     (case prepare_insert d (table schema) (insert_columns schema) (insert_placeholders schema) of
        Inl e \<Rightarrow> Inl e
      | Inr s \<Rightarrow>
          (case prepare_all d entries of
             Inl e \<Rightarrow> Inl e
           | Inr stmts \<Rightarrow> Inr (stmts(eventType \<mapsto> s))))"

definition prepareInserts :: "database \<Rightarrow> error + (string \<rightharpoonup> statement)" where
  "prepareInserts d = prepare_all d EVENT_SCHEMAS"

subsection \<open>The chunked line reader of loadEvents\<close>

text \<open>\<^verbatim>\<open>for (const line of lines) processLine(line)\<close>: a throw ends the loop.\<close>

fun processLines :: "(string \<Rightarrow> 's \<Rightarrow> 'e + 's) \<Rightarrow> string list \<Rightarrow> 's \<Rightarrow> 'e + 's" where
  "processLines P [] st = Inr st"
| "processLines P (line # lines) st =
     (case P line st of
        Inl e \<Rightarrow> Inl e
      | Inr st' \<Rightarrow> processLines P lines st')"

text \<open>
  archive.ts:308-317. The stream is the list of its chunks; \<open>remainder\<close> starts empty.
  \<^verbatim>\<open>
  for await (const chunk of stream) {
    const data = remainder + chunk;
    const lines = data.split("\n");
    remainder = lines.pop()!;
    for (const line of lines) processLine(line);
  }
  processLine(remainder);
  \<close>
\<close>

fun readStream :: "(string \<Rightarrow> 's \<Rightarrow> 'e + 's) \<Rightarrow> string list \<Rightarrow> string \<Rightarrow> 's \<Rightarrow> 'e + 's" where
  "readStream P [] remainder st = P remainder st"
| "readStream P (chunk # stream) remainder st =
     (let data = remainder @ chunk;
          lines = split_char (CHR 0x0A) data
      in case processLines P (butlast lines) st of
           Inl e \<Rightarrow> Inl e
         | Inr st' \<Rightarrow> readStream P stream (last lines) st')"

text \<open>A \<open>processLine\<close> that only records the line it is given.\<close>

definition record_line :: "string \<Rightarrow> string list \<Rightarrow> error + string list" where
  "record_line line seen = Inr (seen @ [line])"

subsection \<open>Loading the events (archive.ts:271-331)\<close>

definition BATCH_SIZE :: nat where
  "BATCH_SIZE = 10000"

text \<open>An element of \<open>batch\<close>: \<^verbatim>\<open>{ type: event.type, values: [...] }\<close>.\<close>

record batch_row =
  row_type :: jsval
  row_values :: "jsval list"

text \<open>
  The variables of loadEvents and the store. \<open>committed\<close> is a history of the run: the
  rows of every \<open>flush\<close> that has committed, in order.
\<close>

record loader =
  count :: nat
  batch :: "batch_row list"
  typeCounts :: "string \<rightharpoonup> nat"
  db :: database
  committed :: "batch_row list list"

text \<open>\<^verbatim>\<open>for (const row of rows) stmts[row.type].run(...row.values)\<close>\<close>

fun run_rows :: "(string \<rightharpoonup> statement) \<Rightarrow> batch_row list \<Rightarrow> database \<Rightarrow> error + database" where
  "run_rows stmts [] d = Inr d"
| "run_rows stmts (row # rows) d =
     (case ToString (row_type row) of
        Inl e \<Rightarrow> Inl e
      | Inr key \<Rightarrow>
          (case stmts key of
             None \<Rightarrow> Inl TypeError
           | Some s \<Rightarrow>
               (case run_insert s (row_values row) d of
                  Inl e \<Rightarrow> Inl e
                | Inr d' \<Rightarrow> run_rows stmts rows d')))"

text \<open>
  \<open>flush\<close> is \<^verbatim>\<open>db.transaction(...)\<close>: all the rows or, when one throws, none (the
  transaction is rolled back and the error thrown again).
\<close>

definition flush :: "(string \<rightharpoonup> statement) \<Rightarrow> batch_row list \<Rightarrow> database \<Rightarrow> error + database" where
  "flush stmts rows d = run_rows stmts rows d"

text \<open>
  \<open>processLine\<close> (archive.ts:284-305). \<open>parse\<close> is the runtime's \<^verbatim>\<open>JSON.parse\<close>, \<open>None\<close>
  where it throws. A throw that leaves \<open>processLine\<close> ends the run: \<open>Inl\<close> has the error
  and the store as it is then. Reading \<^verbatim>\<open>event.type\<close> throws when the line is the text
  \<^verbatim>\<open>null\<close>; for a type that names a property of \<^verbatim>\<open>Object.prototype\<close> the lookup gives
  a value with no \<open>extract\<close>, and the call throws.
\<close>

definition processLine ::
  "(string \<Rightarrow> jsval option) \<Rightarrow> (string \<rightharpoonup> statement) \<Rightarrow> string \<Rightarrow> loader
     \<Rightarrow> (error \<times> database) + loader" where
  "processLine parse stmts line st =
     (if trim line = [] then Inr st
      else case parse line of
        None \<Rightarrow> Inr st
      | Some event \<Rightarrow>
          if nullish event then Inl (TypeError, db st)
          else case ToString (property event ''type'') of
            Inl e \<Rightarrow> Inl (e, db st)
          | Inr key \<Rightarrow>
              (case map_of EVENT_SCHEMAS key of
                 None \<Rightarrow>
                   if key \<in> set Object_prototype_names then Inl (TypeError, db st) else Inr st
               | Some schema \<Rightarrow>
                   (case commonValues event of
                      Inl e \<Rightarrow> Inl (e, db st)
                    | Inr common \<Rightarrow>
                        (case extract_fn schema (or_empty (property event ''payload'')) of
                           Inl e \<Rightarrow> Inl (e, db st)
                         | Inr extra \<Rightarrow>
                             (let st1 = st\<lparr>
                                    batch := batch st @
                                      [\<lparr> row_type = property event ''type'', row_values = common @ extra \<rparr>],
                                    typeCounts := (typeCounts st)
                                      (key \<mapsto> (case typeCounts st key of None \<Rightarrow> 0 | Some n \<Rightarrow> n) + 1),
                                    count := count st + 1 \<rparr>
                              in if length (batch st1) \<ge> BATCH_SIZE
                                 then (case flush stmts (batch st1) (db st1) of
                                         Inl e \<Rightarrow> Inl (e, db st1)
                                       | Inr d' \<Rightarrow> Inr (st1\<lparr>
                                           db := d', committed := committed st1 @ [batch st1],
                                           batch := [] \<rparr>))
                                 else Inr st1)))))"

text \<open>
  loadEvents: the statements are prepared, the lines of the stream processed, and what
  is left in the batch flushed. \<open>chunks\<close> is the stream of the file. The result is the
  final state (the source returns its \<open>count\<close> and prints its \<open>typeCounts\<close>).
\<close>

definition loadEvents ::
  "(string \<Rightarrow> jsval option) \<Rightarrow> string list \<Rightarrow> database \<Rightarrow> (error \<times> database) + loader" where
  "loadEvents parse chunks d =
     (case prepareInserts d of
        Inl e \<Rightarrow> Inl (e, d)
      | Inr stmts \<Rightarrow>
          (case readStream (processLine parse stmts) chunks []
                  \<lparr> count = 0, batch = [], typeCounts = Map.empty, db = d, committed = [] \<rparr> of
             Inl e \<Rightarrow> Inl e
           | Inr st \<Rightarrow>
               if length (batch st) > 0
               then (case flush stmts (batch st) (db st) of
                       Inl e \<Rightarrow> Inl (e, db st)
                     | Inr d' \<Rightarrow> Inr (st\<lparr> db := d', committed := committed st @ [batch st] \<rparr>))
               else Inr st))"

subsection \<open>The run (archive.ts:335-375)\<close>

text \<open>
  What a run reads and changes: the clock, the arguments, the server, the files of the
  data directory (path to content), the store file \<^verbatim>\<open>archive.db\<close> (absent before the
  first run) and the requests made. The runtime gives \<open>parse\<close> (\<^verbatim>\<open>JSON.parse\<close>), \<open>gunzip\<close>
  (the output written, and the error if the input is corrupt) and \<open>chunking\<close> (how the
  read stream cuts a file).
\<close>

record world =
  now :: int
  argv :: "string list"
  server :: "string \<Rightarrow> response"
  files :: "string \<rightharpoonup> string"
  archive_db :: "database option"
  requests :: "string list"

text \<open>
  \<open>decompress\<close> (archive.ts:67-73). The pipeline makes its three streams first, so the
  output file is there, empty, also when the input file is not. On corrupt input the
  pipeline rejects, and the output file holds what was written until then.
\<close>

definition decompress ::
  "(string \<Rightarrow> (error \<times> string) + string) \<Rightarrow> string \<Rightarrow> string \<Rightarrow> world
     \<Rightarrow> (error \<times> world) + world" where
  "decompress gunzip gzPath outPath w =
     (case files w gzPath of
        None \<Rightarrow> Inl (SystemError ''ENOENT'', w\<lparr> files := (files w)(outPath \<mapsto> []) \<rparr>)
      | Some gz \<Rightarrow>
          (case gunzip gz of
             Inl (e, partial) \<Rightarrow> Inl (e, w\<lparr> files := (files w)(outPath \<mapsto> partial) \<rparr>)
           | Inr text \<Rightarrow> Inr (w\<lparr> files := (files w)(outPath \<mapsto> text) \<rparr>)))"

text \<open>
  \<open>main\<close>: \<open>None\<close> when the download never settles; otherwise the count or the error that
  ends the process (a rejection that \<^verbatim>\<open>main().catch\<close> reports, or the exception of a
  crash), and the world after the run.
\<close>

definition main ::
  "(string \<Rightarrow> jsval option) \<Rightarrow> (string \<Rightarrow> (error \<times> string) + string) \<Rightarrow> (string \<Rightarrow> string list)
     \<Rightarrow> world \<Rightarrow> ((error + nat) \<times> world) option" where
  "main parse gunzip chunking w =
     (case parseArgs (now w) (argv w) of
        Inl e \<Rightarrow> Some (Inl e, w)
      | Inr (date, hour) \<Rightarrow>
          (let filename = date @ ''-'' @ dec_int hour;
               gzPath = ''archive-data/'' @ filename @ ''.json.gz'';
               jsonPath = ''archive-data/'' @ filename @ ''.json'';
               url = ''https://data.gharchive.org/'' @ filename @ ''.json.gz'';
               fetched =
                 (if files w gzPath \<noteq> None then Some (Inr w)
                  else case download (server w) url (requests w) of
                    None \<Rightarrow> None
                  | Some (result, at_dest, rs) \<Rightarrow>
                      (let w1 = w\<lparr> requests := rs, files := (files w)(gzPath := at_dest) \<rparr>
                       in case result of
                            Resolved \<Rightarrow> Some (Inr w1)
                          | Rejected e \<Rightarrow> Some (Inl (e, w1))
                          | Crashed e \<Rightarrow> Some (Inl (e, w1))))
           in case fetched of
                None \<Rightarrow> None
              | Some (Inl (e, w1)) \<Rightarrow> Some (Inl e, w1)
              | Some (Inr w1) \<Rightarrow>
                  (case (if files w1 jsonPath \<noteq> None then Inr w1
                         else decompress gunzip gzPath jsonPath w1) of
                     Inl (e, w2) \<Rightarrow> Some (Inl e, w2)
                   | Inr w2 \<Rightarrow>
                       (case createArchiveDatabase of
                          Inl e \<Rightarrow> Some (Inl e, w2\<lparr> archive_db := None \<rparr>)
                        | Inr d0 \<Rightarrow>
                            (case loadEvents parse
                                    (chunking (case files w2 jsonPath of Some text \<Rightarrow> text | None \<Rightarrow> []))
                                    d0 of
                               Inl (e, d) \<Rightarrow> Some (Inl e, w2\<lparr> archive_db := Some d \<rparr>)
                             | Inr st \<Rightarrow> Some (Inr (count st), w2\<lparr> archive_db := Some (db st) \<rparr>))))))"

section \<open>Notions used in the statements\<close>

subsection \<open>Redirect chains\<close>

text \<open>
  Whether \<open>download\<close> asks again after the server's answer for a URL (a 301 or 302 that
  finds \<open>dest\<close> there to remove), where it asks then, the URL asked for after \<open>k\<close> such
  answers, and how \<open>download\<close> ends on an answer after which it does not ask again.
\<close>

definition follows :: "(string \<Rightarrow> response) \<Rightarrow> string \<Rightarrow> bool" where
  "follows srv url =
     (case srv url of
        Response code loc content opened \<Rightarrow> (code = 301 \<or> code = 302) \<and> opened = Before
      | _ \<Rightarrow> False)"

definition redirect_target :: "(string \<Rightarrow> response) \<Rightarrow> string \<Rightarrow> string" where
  "redirect_target srv url =
     (case srv url of Response code loc content opened \<Rightarrow> loc | _ \<Rightarrow> url)"

fun hop :: "(string \<Rightarrow> response) \<Rightarrow> string \<Rightarrow> nat \<Rightarrow> string" where
  "hop srv url 0 = url"
| "hop srv url (Suc k) = hop srv (redirect_target srv url) k"

definition settle ::
  "(string \<Rightarrow> response) \<Rightarrow> string \<Rightarrow> string list \<Rightarrow> outcome \<times> string option \<times> string list" where
  "settle srv url rs =
     (case srv url of
        Throws e opened \<Rightarrow> (Rejected e, leftover opened, rs)
      | Response code loc content opened \<Rightarrow>
          if code = 200 then (Resolved, Some content, rs @ [url])
          else if opened = Before
          then (Rejected (Error (''HTTP '' @ dec code @ '' for '' @ url)), None, rs @ [url])
          else (Crashed (SystemError ''ENOENT''), leftover opened, rs @ [url])
      | TransportError e opened \<Rightarrow>
          (Rejected e, (if opened = Before then None else leftover opened), rs @ [url]))"

text \<open>
  The client of the samples: \<^verbatim>\<open>get\<close> throws a TypeError on a string that does not start
  with \<^verbatim>\<open>https://\<close>.
\<close>

definition https :: "string \<Rightarrow> bool" where
  "https url = prefix ''https://'' url"

definition archive_host :: string where
  "archive_host = ''https://data.gharchive.org/''"

text \<open>A server whose every answer redirects to the same URL: a cycle of length one.\<close>

definition loop_server :: "string \<Rightarrow> response" where
  "loop_server url =
     (if https url then Response 302 ''https://data.gharchive.org/a'' [] Before
      else Throws TypeError Never)"

text \<open>
  A server that redirects twelve times from \<open>archive_host\<close>, each time to a URL one
  character longer, and then answers with the file.
\<close>

definition chain_server :: "string \<Rightarrow> response" where
  "chain_server url =
     (if \<not> https url then Throws TypeError Never
      else if length url < 39 then Response 301 (url @ ''a'') [] Before
      else Response 200 [] ''data'' Before)"

text \<open>
  A server that redirects once, to a path on the same host: \<^verbatim>\<open>get\<close> throws on the
  relative Location.
\<close>

definition relative_server :: "string \<Rightarrow> response" where
  "relative_server url =
     (if https url then Response 302 ''/2024-01-01-5.json.gz'' [] Before
      else Throws TypeError After)"

subsection \<open>Arguments\<close>

text \<open>The UTC calendar date of a day counted from 1970-01-01, as \<^verbatim>\<open>YYYY-MM-DD\<close>.\<close>

definition utc_date :: "int \<Rightarrow> string" where
  "utc_date day =
     (case civil_from_days day of
        (y, m, d) \<Rightarrow> dec_int y @ ''-'' @ padStart2 (dec_int m) @ ''-'' @ padStart2 (dec_int d))"

text \<open>
  Arguments that \<open>parseArgs\<close> refuses: a first argument that is not four digits, a
  hyphen, two digits, a hyphen and two digits; or a second argument in which
  \<^verbatim>\<open>parseInt\<close> finds no integer, or finds one below 0 or above 23.
\<close>

definition refused_arguments :: "string list \<Rightarrow> bool" where
  "refused_arguments args =
     (case args of
        [] \<Rightarrow> False
      | date # rest \<Rightarrow>
          \<not> date_format date \<or>
          (case rest of
             [] \<Rightarrow> False
           | a # _ \<Rightarrow> (case parseInt a of None \<Rightarrow> True | Some h \<Rightarrow> h < 0 \<or> 23 < h)))"

subsection \<open>Tables and statements of the registry\<close>

text \<open>
  The column names of the table that the \<^verbatim>\<open>CREATE TABLE\<close> of a schema declares, and the
  column names that its insert statement lists.
\<close>

definition created_columns :: "EventSchema \<Rightarrow> string list" where
  "created_columns schema = map col_name (map parse_column (split_char (CHR '','') (table_body schema)))"

definition inserted_columns :: "EventSchema \<Rightarrow> string list" where
  "inserted_columns schema = map trim (split_char (CHR '','') (insert_columns schema))"

text \<open>The names of the common columns, a column with no constraint, a name with no comma or space.\<close>

definition common_names :: "string list" where
  "common_names =
     [''id'', ''created_at'', ''public'', ''actor_id'', ''actor_login'', ''actor_display_login'',
      ''actor_gravatar_id'', ''actor_avatar_url'', ''actor_url'', ''repo_id'', ''repo_name'',
      ''repo_url'', ''org_id'', ''org_login'', ''org_gravatar_id'', ''org_avatar_url'', ''org_url'',
      ''other'']"

definition plain_column :: "string \<Rightarrow> column_def" where
  "plain_column name = \<lparr> col_name = name, not_null = False, primary_key = False \<rparr>"

definition plain_name :: "string \<Rightarrow> bool" where
  "plain_name n = (n \<noteq> [] \<and> list_all (\<lambda>c. \<not> is_space c \<and> c \<noteq> CHR '','') n)"

text \<open>
  The empty table and the statement of a schema; the database of empty tables; the
  statements by event type; and a database that has the tables of the registry, with
  any rows.
\<close>

definition table_for :: "EventSchema \<Rightarrow> sql_table" where
  "table_for schema =
     \<lparr> table_columns = map parse_column (split_char (CHR '','') (table_body schema)), table_rows = [] \<rparr>"

definition statement_for :: "EventSchema \<Rightarrow> statement" where
  "statement_for schema =
     \<lparr> target = table schema, target_columns = created_columns schema,
       parameters = length (created_columns schema) \<rparr>"

definition fresh_database :: database where
  "fresh_database = map_of (map (\<lambda>(k, s). (table s, table_for s)) EVENT_SCHEMAS)"

definition archive_statements :: "string \<rightharpoonup> statement" where
  "archive_statements key = map_option statement_for (map_of EVENT_SCHEMAS key)"

definition has_archive_tables :: "database \<Rightarrow> bool" where
  "has_archive_tables d =
     (\<forall>(k, s) \<in> set EVENT_SCHEMAS.
        case d (table s) of
          None \<Rightarrow> False
        | Some t \<Rightarrow> table_columns t = table_columns (table_for s))"

text \<open>The entry of the registry for WatchEvent, and the payload keys an \<open>extract\<close> reads.\<close>

definition watch_schema :: EventSchema where
  "watch_schema =
     \<lparr> table = ''watch_events'', columns = ''action TEXT'', extraIndexes = None,
       extract_fn = (\<lambda>p. reading p [coalesce (property p ''action'') JNull]) \<rparr>"

definition payload_reads :: "string \<Rightarrow> string list" where
  "payload_reads eventType = (case map_of payload_keys eventType of Some keys \<Rightarrow> keys | None \<Rightarrow> [])"

text \<open>A record without one of its top-level keys.\<close>

definition without_key :: "string \<Rightarrow> jsval \<Rightarrow> jsval" where
  "without_key key event =
     (case event of JObj kvs \<Rightarrow> JObj (filter (\<lambda>(k, v). k \<noteq> key) kvs) | _ \<Rightarrow> event)"

subsection \<open>The parts of processLine\<close>

text \<open>
  What \<open>processLine\<close> makes of a line before it touches its variables: a throw, nothing
  (a blank line, a line that is not JSON, a type that is not registered), or the row and
  the key it is counted under. Then what it does with a row: the push, the counts and
  the flush at the threshold. \<open>initial_loader\<close> is the state loadEvents starts from.
\<close>

definition line_row :: "(string \<Rightarrow> jsval option) \<Rightarrow> string \<Rightarrow> error + (string \<times> batch_row) option" where
  "line_row parse line =
     (if trim line = [] then Inr None
      else case parse line of
        None \<Rightarrow> Inr None
      | Some event \<Rightarrow>
          if nullish event then Inl TypeError
          else case ToString (property event ''type'') of
            Inl e \<Rightarrow> Inl e
          | Inr key \<Rightarrow>
              (case map_of EVENT_SCHEMAS key of
                 None \<Rightarrow> if key \<in> set Object_prototype_names then Inl TypeError else Inr None
               | Some schema \<Rightarrow>
                   (case commonValues event of
                      Inl e \<Rightarrow> Inl e
                    | Inr common \<Rightarrow>
                        (case extract_fn schema (or_empty (property event ''payload'')) of
                           Inl e \<Rightarrow> Inl e
                         | Inr extra \<Rightarrow>
                             Inr (Some (key, \<lparr> row_type = property event ''type'',
                                               row_values = common @ extra \<rparr>))))))"

definition push_row ::
  "(string \<rightharpoonup> statement) \<Rightarrow> string \<times> batch_row \<Rightarrow> loader \<Rightarrow> (error \<times> database) + loader" where
  "push_row stmts kr st =
     (let st1 = st\<lparr>
            batch := batch st @ [snd kr],
            typeCounts := (typeCounts st)
              (fst kr \<mapsto> (case typeCounts st (fst kr) of None \<Rightarrow> 0 | Some n \<Rightarrow> n) + 1),
            count := count st + 1 \<rparr>
      in if length (batch st1) \<ge> BATCH_SIZE
         then (case flush stmts (batch st1) (db st1) of
                 Inl e \<Rightarrow> Inl (e, db st1)
               | Inr d' \<Rightarrow> Inr (st1\<lparr>
                   db := d', committed := committed st1 @ [batch st1],
                   batch := [] \<rparr>))
         else Inr st1)"

definition initial_loader :: "database \<Rightarrow> loader" where
  "initial_loader d = \<lparr> count = 0, batch = [], typeCounts = Map.empty, db = d, committed = [] \<rparr>"

subsection \<open>Rows, batches and counts\<close>

text \<open>
  The rows that the lines of an input give, in order, each with the key it is counted
  under; whether no line throws; and \<open>push_row\<close> over a list of rows.
\<close>

fun accepted :: "(string \<Rightarrow> jsval option) \<Rightarrow> string list \<Rightarrow> (string \<times> batch_row) list" where
  "accepted parse [] = []"
| "accepted parse (line # lines) =
     (case line_row parse line of
        Inr (Some kr) \<Rightarrow> kr # accepted parse lines
      | _ \<Rightarrow> accepted parse lines)"

definition no_throw :: "(string \<Rightarrow> jsval option) \<Rightarrow> string list \<Rightarrow> bool" where
  "no_throw parse lines = list_all (\<lambda>line. \<not> isl (line_row parse line)) lines"

fun push_rows ::
  "(string \<rightharpoonup> statement) \<Rightarrow> (string \<times> batch_row) list \<Rightarrow> loader \<Rightarrow> (error \<times> database) + loader" where
  "push_rows stmts [] st = Inr st"
| "push_rows stmts (kr # krs) st =
     (case push_row stmts kr st of
        Inl e \<Rightarrow> Inl e
      | Inr st' \<Rightarrow> push_rows stmts krs st')"

text \<open>A list cut into consecutive batches of \<open>n\<close>, the last one possibly shorter.\<close>

function batches :: "nat \<Rightarrow> 'a list \<Rightarrow> 'a list list" where
  "batches n xs = (if n = 0 \<or> xs = [] then [] else take n xs # batches n (drop n xs))"
  by pat_completeness auto
termination
  by (relation "measure (\<lambda>(n, xs). length xs)") auto

declare batches.simps [simp del]

text \<open>
  Whether better-sqlite3 can bind a row to the statement of its type: the type names a
  statement, and the arguments give as many values as the statement has parameters.
\<close>

definition binds :: "(string \<rightharpoonup> statement) \<Rightarrow> batch_row \<Rightarrow> bool" where
  "binds stmts row =
     (case ToString (row_type row) of
        Inl e \<Rightarrow> False
      | Inr key \<Rightarrow>
          (case stmts key of
             None \<Rightarrow> False
           | Some s \<Rightarrow>
               (case bind_arguments False (row_values row) of
                  Inl e \<Rightarrow> False
                | Inr vs \<Rightarrow> length vs = parameters s)))"

text \<open>
  How many rows are counted under a key; and that the \<open>typeCounts\<close> of a state are the
  counts \<open>c\<close> (a key with no row is absent).
\<close>

definition tally :: "string \<Rightarrow> (string \<times> batch_row) list \<Rightarrow> nat" where
  "tally key krs = length (filter (\<lambda>kr. fst kr = key) krs)"

definition counts_are :: "loader \<Rightarrow> (string \<Rightarrow> nat) \<Rightarrow> bool" where
  "counts_are st c = (\<forall>key. typeCounts st key = (if c key = 0 then None else Some (c key)))"

text \<open>
  A line that is counted, and counted under a key: it is not blank, it decodes, and the
  string of its type is a key of the registry.
\<close>

definition counted_as :: "(string \<Rightarrow> jsval option) \<Rightarrow> string \<Rightarrow> string \<Rightarrow> bool" where
  "counted_as parse key line =
     (trim line \<noteq> [] \<and>
      (case parse line of
         None \<Rightarrow> False
       | Some event \<Rightarrow>
           \<not> nullish event \<and> ToString (property event ''type'') = Inr key \<and>
           map_of EVENT_SCHEMAS key \<noteq> None))"

definition counted :: "(string \<Rightarrow> jsval option) \<Rightarrow> string \<Rightarrow> bool" where
  "counted parse line =
     (trim line \<noteq> [] \<and>
      (case parse line of
         None \<Rightarrow> False
       | Some event \<Rightarrow>
           \<not> nullish event \<and>
           (case ToString (property event ''type'') of
              Inl e \<Rightarrow> False
            | Inr key \<Rightarrow> map_of EVENT_SCHEMAS key \<noteq> None)))"

subsection \<open>Stored rows\<close>

text \<open>
  What \<^verbatim>\<open>INSERT OR IGNORE\<close> makes of the rows of an archive table when it is given the
  values of all the columns. Such a table starts with \<^verbatim>\<open>id\<close> (the primary key),
  \<^verbatim>\<open>created_at\<close> and \<^verbatim>\<open>public\<close> (both \<^verbatim>\<open>NOT NULL\<close>), and no other column has a
  constraint: the values are added as a row unless \<^verbatim>\<open>created_at\<close> or \<^verbatim>\<open>public\<close> is
  \<^verbatim>\<open>NULL\<close>, or the identifier is not \<^verbatim>\<open>NULL\<close> and is that of a stored row.
\<close>

definition insert_or_ignore :: "jsval list \<Rightarrow> jsval list list \<Rightarrow> jsval list list" where
  "insert_or_ignore vs rows =
     (if vs ! 1 = JNull \<or> vs ! 2 = JNull \<or> (hd vs \<noteq> JNull \<and> hd vs \<in> set (map hd rows))
      then rows else rows @ [vs])"

text \<open>
  A database that has the tables of the registry, in which no stored row is empty and no
  two rows of a table have the same identifier, \<^verbatim>\<open>NULL\<close> apart.
\<close>

definition keyed :: "database \<Rightarrow> bool" where
  "keyed d =
     (has_archive_tables d \<and>
      (\<forall>(k, s) \<in> set EVENT_SCHEMAS.
         case d (table s) of
           None \<Rightarrow> False
         | Some t \<Rightarrow>
             [] \<notin> set (table_rows t) \<and>
             distinct (filter (\<lambda>v. v \<noteq> JNull) (map hd (table_rows t)))))"

text \<open>
  The table a row of the batch goes to and the values bound for it, when the row can be
  bound to the statement of its type; the store after the insert of the row; and whether
  the insert is ignored.
\<close>

definition row_target :: "batch_row \<Rightarrow> (string \<times> jsval list) option" where
  "row_target row =
     (case ToString (row_type row) of
        Inl e \<Rightarrow> None
      | Inr key \<Rightarrow>
          (case archive_statements key of
             None \<Rightarrow> None
           | Some s \<Rightarrow>
               (case bind_arguments False (row_values row) of
                  Inl e \<Rightarrow> None
                | Inr vs \<Rightarrow> if length vs = parameters s then Some (target s, vs) else None)))"

definition store_row :: "batch_row \<Rightarrow> database \<Rightarrow> database" where
  "store_row row d =
     (case row_target row of
        None \<Rightarrow> d
      | Some (name, vs) \<Rightarrow>
          (case d name of
             None \<Rightarrow> d
           | Some t \<Rightarrow> d(name \<mapsto> t\<lparr> table_rows := insert_or_ignore vs (table_rows t) \<rparr>)))"

definition ignored :: "database \<Rightarrow> batch_row \<Rightarrow> bool" where
  "ignored d row =
     (case row_target row of
        None \<Rightarrow> True
      | Some (name, vs) \<Rightarrow>
          (case d name of
             None \<Rightarrow> True
           | Some t \<Rightarrow>
               vs ! 1 = JNull \<or> vs ! 2 = JNull \<or>
               (hd vs \<noteq> JNull \<and> hd vs \<in> set (map hd (table_rows t)))))"

text \<open>Every table of the registry holds at most one row for an identifier.\<close>

definition one_row_per_id :: "database \<Rightarrow> bool" where
  "one_row_per_id d =
     (\<forall>(k, s) \<in> set EVENT_SCHEMAS. \<forall>i.
        case d (table s) of
          None \<Rightarrow> True
        | Some t \<Rightarrow> length (filter (\<lambda>r. hd r = JStr i) (table_rows t)) \<le> 1)"

text \<open>
  The number of rows of a table, the number of rows in the tables of the registry, and
  the number of inserts that are ignored when rows are inserted one after the other.
\<close>

definition rows_in :: "database \<Rightarrow> string \<Rightarrow> nat" where
  "rows_in d name = (case d name of None \<Rightarrow> 0 | Some t \<Rightarrow> length (table_rows t))"

definition total_rows :: "database \<Rightarrow> nat" where
  "total_rows d = sum_list (map (\<lambda>(k, s). rows_in d (table s)) EVENT_SCHEMAS)"

fun ignored_inserts :: "batch_row list \<Rightarrow> database \<Rightarrow> nat" where
  "ignored_inserts [] d = 0"
| "ignored_inserts (row # rows) d =
     (if ignored d row then 1 else 0) + ignored_inserts rows (store_row row d)"

text \<open>
  What a completed loadEvents leaves: the count it returns, the counts by type it
  prints, the store, and the batches it flushed, in order.
\<close>

definition report ::
  "(error \<times> database) + loader \<Rightarrow> (nat \<times> (string \<rightharpoonup> nat) \<times> database \<times> batch_row list list) option" where
  "report r =
     (case r of
        Inl e \<Rightarrow> None
      | Inr st \<Rightarrow> Some (count st, typeCounts st, db st, committed st))"

text \<open>The paths and the URL that \<open>main\<close> makes of a date and an hour.\<close>

definition gz_path :: "string \<Rightarrow> int \<Rightarrow> string" where
  "gz_path date hour = ''archive-data/'' @ (date @ ''-'' @ dec_int hour) @ ''.json.gz''"

definition json_path :: "string \<Rightarrow> int \<Rightarrow> string" where
  "json_path date hour = ''archive-data/'' @ (date @ ''-'' @ dec_int hour) @ ''.json''"

definition archive_url :: "string \<Rightarrow> int \<Rightarrow> string" where
  "archive_url date hour = ''https://data.gharchive.org/'' @ (date @ ''-'' @ dec_int hour) @ ''.json.gz''"

subsection \<open>Sample inputs\<close>

text \<open>A server that has no file.\<close>

definition not_found_server :: "string \<Rightarrow> response" where
  "not_found_server url =
     (if https url then Response 404 [] [] Before else Throws TypeError Never)"

text \<open>A read stream that cuts a text into chunks of \<open>n\<close> characters.\<close>

fun chop :: "nat \<Rightarrow> string \<Rightarrow> string \<Rightarrow> string list" where
  "chop n cur [] = (if cur = [] then [] else [cur])"
| "chop n cur (c # cs) =
     (if n \<le> length cur + 1 then (cur @ [c]) # chop n [] cs else chop n (cur @ [c]) cs)"

definition sample_chunking :: "string \<Rightarrow> string list" where
  "sample_chunking text = chop 7 [] text"

text \<open>A decompression that fails on the empty file and stores other files as they are.\<close>

definition sample_gunzip :: "string \<Rightarrow> (error \<times> string) + string" where
  "sample_gunzip gz = (if gz = [] then Inl (Error ''unexpected end of file'', []) else Inr gz)"

text \<open>
  Records of the feed and their text. \<open>sample_parse\<close> is \<^verbatim>\<open>JSON.parse\<close> on these lines
  and on the line \<^verbatim>\<open>{oops\<close>, which is not JSON.
\<close>

definition watch_line :: string where
  \<open>watch_line =
     ''{"id":"1","type":"WatchEvent","created_at":"t","actor":{},"repo":{},"payload":{"action":"started"}}''\<close>

definition watch_event :: jsval where
  "watch_event =
     JObj [(''id'', JStr ''1''), (''type'', JStr ''WatchEvent''), (''created_at'', JStr ''t''),
           (''actor'', JObj []), (''repo'', JObj []),
           (''payload'', JObj [(''action'', JStr ''started'')])]"

definition fork_line :: string where
  \<open>fork_line = ''{"id":"2","type":"ForkEvent","created_at":"u","extra":7,"__proto__":{"x":1}}''\<close>

definition fork_event :: jsval where
  "fork_event =
     JObj [(''id'', JStr ''2''), (''type'', JStr ''ForkEvent''), (''created_at'', JStr ''u''),
           (''extra'', JNum ''7''), (''__proto__'', JObj [(''x'', JNum ''1'')])]"

definition proto_line :: string where
  \<open>proto_line = ''{"id":"3","type":"WatchEvent","created_at":"v","__proto__":{"x":1}}''\<close>

definition proto_event :: jsval where
  "proto_event =
     JObj [(''id'', JStr ''3''), (''type'', JStr ''WatchEvent''), (''created_at'', JStr ''v''),
           (''__proto__'', JObj [(''x'', JNum ''1'')])]"

definition sample_parse :: "string \<Rightarrow> jsval option" where
  "sample_parse line =
     (if line = watch_line then Some watch_event
      else if line = fork_line then Some fork_event
      else if line = proto_line then Some proto_event
      else None)"

text \<open>
  The row that \<open>watch_line\<close> gives, the table \<^verbatim>\<open>watch_events\<close> holding that row alone, a
  file of two such lines, and a server that serves the file.
\<close>

definition watch_values :: "jsval list" where
  "watch_values =
     [JStr ''1'', JStr ''t'', JNum ''1'', JNull, JNull, JNull, JNull, JNull, JNull, JNull, JNull,
      JNull, JNull, JNull, JNull, JNull, JNull, JNull, JStr ''started'']"

definition watch_row :: batch_row where
  "watch_row = \<lparr> row_type = JStr ''WatchEvent'', row_values = watch_values \<rparr>"

definition watch_table :: sql_table where
  "watch_table = \<lparr> table_columns = table_columns (table_for watch_schema), table_rows = [watch_values] \<rparr>"

definition watch_file :: string where
  "watch_file = watch_line @ ''\<newline>'' @ watch_line @ ''\<newline>''"

definition watch_server :: "string \<Rightarrow> response" where
  "watch_server url = (if https url then Response 200 [] watch_file Before else Throws TypeError Never)"

text \<open>Invocations: an hour with trailing characters, an hour out of range.\<close>

definition world_hour_5abc :: world where
  "world_hour_5abc =
     \<lparr> now = 0, argv = [''2024-01-01'', ''5abc''], server = not_found_server,
       files = Map.empty, archive_db = None, requests = [] \<rparr>"

definition world_hour_24 :: world where
  "world_hour_24 =
     \<lparr> now = 0, argv = [''2024-01-01'', ''24''], server = not_found_server,
       files = Map.empty, archive_db = None, requests = [] \<rparr>"

text \<open>
  An invocation for an hour that the server has, with nothing cached, and the world
  after its run.
\<close>

definition world_watch :: world where
  "world_watch =
     \<lparr> now = 0, argv = [''2024-01-01'', ''5''], server = watch_server,
       files = Map.empty, archive_db = None, requests = [] \<rparr>"

definition world_watch_loaded :: world where
  "world_watch_loaded =
     \<lparr> now = 0, argv = [''2024-01-01'', ''5''], server = watch_server,
       files = [''archive-data/2024-01-01-5.json.gz'' \<mapsto> watch_file,
                ''archive-data/2024-01-01-5.json'' \<mapsto> watch_file],
       archive_db = Some (fresh_database(''watch_events'' \<mapsto> watch_table)),
       requests = [''https://data.gharchive.org/2024-01-01-5.json.gz''] \<rparr>"

section \<open>Properties\<close>

subsection \<open>Arguments\<close>

lemma civil_from_days_examples:
  "civil_from_days 0 = (1970, 1, 1)" "civil_from_days 19782 = (2024, 2, 29)"
  by code_simp+

lemma yesterday_day: "(t - msPerDay) div msPerDay = t div msPerDay - 1"
proof -
  have "(t - 86400000) div 86400000 = (t + (-1) * 86400000) div (86400000::int)" by simp
  also have "\<dots> = (-1) + t div 86400000" by (rule div_mult_self1) simp
  finally show ?thesis by (simp add: msPerDay_def)
qed

lemma parseArgs_default: "parseArgs t [] = Inr (utc_date (t div msPerDay - 1), 0)"
  by (simp add: parseArgs_def utc_date_def yesterday_day Let_def split: prod.splits)

lemma parseArgs_refused:
  "refused_arguments args \<Longrightarrow>
   \<exists>msg. parseArgs t args = Inl (Error msg) \<and>
     (prefix ''Invalid date format: '' msg \<or> prefix ''Invalid hour: '' msg)"
  unfolding refused_arguments_def parseArgs_def Let_def
  by (auto split: list.splits option.splits)

lemma parseArgs_accepted:
  "\<not> refused_arguments args \<Longrightarrow> \<exists>r. parseArgs t args = Inr r"
  unfolding refused_arguments_def parseArgs_def Let_def
  by (auto split: list.splits option.splits prod.splits)

lemma parseInt_5abc: "parseInt ''5abc'' = Some 5"
  by (simp add: parseInt_def is_space_def is_digit_def digit_value_def)

lemma parseInt_24: "parseInt ''24'' = Some 24"
  by (simp add: parseInt_def is_space_def is_digit_def digit_value_def)

lemma date_format_2024_01_01: "date_format ''2024-01-01''"
  by (simp add: date_format_def is_digit_def)

lemma dec_5: "dec 5 = ''5''"
  by (simp add: dec.simps digit_char_def)

text \<open>
  C9 as the spec states it fails: the hour argument \<^verbatim>\<open>5abc\<close> denotes no integer, yet the
  run goes on as for hour 5 and asks the server for the file.
\<close>

theorem hour_with_trailing_text_accepted:
  "main sample_parse sample_gunzip sample_chunking world_hour_5abc =
     Some (Inl (Error ''HTTP 404 for https://data.gharchive.org/2024-01-01-5.json.gz''),
           world_hour_5abc\<lparr> requests := [''https://data.gharchive.org/2024-01-01-5.json.gz''] \<rparr>)"
proof -
  have a: "parseArgs (now world_hour_5abc) (argv world_hour_5abc) = Inr (''2024-01-01'', 5)"
    by (simp add: world_hour_5abc_def parseArgs_def date_format_2024_01_01 parseInt_5abc)
  have d: "download not_found_server ''https://data.gharchive.org/2024-01-01-5.json.gz'' [] =
             Some (Rejected (Error (''HTTP '' @ dec 404 @ '' for https://data.gharchive.org/2024-01-01-5.json.gz'')),
                   None, [''https://data.gharchive.org/2024-01-01-5.json.gz''])"
    by (subst download.simps) (simp add: not_found_server_def https_def)
  have n: "dec 404 = ''404''"
    by (simp add: dec.simps digit_char_def)
  have w: "server world_hour_5abc = not_found_server" "requests world_hour_5abc = []"
    "files world_hour_5abc = Map.empty"
    by (simp_all add: world_hour_5abc_def)
  show ?thesis
    unfolding main_def a
    by (simp add: Let_def dec_int_def dec_5 w d n)
qed

text \<open>
  C9, amended. An invocation whose first argument is not of the form YYYY-MM-DD, or
  whose second argument has no leading integer for \<^verbatim>\<open>parseInt\<close> (after white space and a
  sign) or has one outside 0 to 23, ends at once with an error that names the bad
  argument: nothing is requested and nothing changes. With no argument the date is
  that of the day before the current UTC day, and the hour is 0.
\<close>

theorem main_refuses_arguments:
  "(refused_arguments (argv w) \<longrightarrow>
      (\<exists>msg. main parse gunzip chunking w = Some (Inl (Error msg), w) \<and>
         (prefix ''Invalid date format: '' msg \<or> prefix ''Invalid hour: '' msg)))
   \<and> parseArgs t [] = Inr (utc_date (t div msPerDay - 1), 0)"
proof (intro conjI impI)
  assume "refused_arguments (argv w)"
  from parseArgs_refused [OF this, of "now w"] obtain msg where
    m: "parseArgs (now w) (argv w) = Inl (Error msg)"
       "prefix ''Invalid date format: '' msg \<or> prefix ''Invalid hour: '' msg" by blast
  have "main parse gunzip chunking w = Some (Inl (Error msg), w)"
    by (simp add: main_def m(1))
  with m(2) show "\<exists>msg. main parse gunzip chunking w = Some (Inl (Error msg), w) \<and>
         (prefix ''Invalid date format: '' msg \<or> prefix ''Invalid hour: '' msg)" by blast
next
  show "parseArgs t [] = Inr (utc_date (t div msPerDay - 1), 0)" by (rule parseArgs_default)
qed

theorem main_refuses_arguments_witness:
  "refused_arguments (argv world_hour_24) \<and>
   (\<exists>msg. main sample_parse sample_gunzip sample_chunking world_hour_24
             = Some (Inl (Error msg), world_hour_24) \<and>
      (prefix ''Invalid date format: '' msg \<or> prefix ''Invalid hour: '' msg)) \<and>
   parseArgs 1709251200000 [] = Inr (utc_date 19782, 0)"
proof -
  have r: "refused_arguments (argv world_hour_24)"
    by (simp add: world_hour_24_def refused_arguments_def date_format_2024_01_01 parseInt_24)
  have d: "(1709251200000::int) div msPerDay - 1 = 19782"
    by (simp add: msPerDay_def)
  show ?thesis
    using r d
      main_refuses_arguments [of world_hour_24 sample_parse sample_gunzip sample_chunking 1709251200000]
    by simp
qed

subsection \<open>Redirects\<close>

lemma download_redirect:
  "follows srv url \<Longrightarrow> download srv url rs = download srv (redirect_target srv url) (rs @ [url])"
  by (subst download.simps) (auto simp: follows_def redirect_target_def split: response.splits)

lemma download_final:
  "\<not> follows srv url \<Longrightarrow> download srv url rs = Some (settle srv url rs)"
  by (subst download.simps) (auto simp: follows_def settle_def split: response.splits)

lemma download_chain:
  "(\<forall>k<n. follows srv (hop srv url k)) \<Longrightarrow> \<not> follows srv (hop srv url n) \<Longrightarrow>
   download srv url rs = Some (settle srv (hop srv url n) (rs @ map (hop srv url) [0..<n]))"
proof (induction n arbitrary: url rs)
  case 0
  then show ?case by (simp add: download_final)
next
  case (Suc n)
  have r: "follows srv url" using Suc.prems(1) [rule_format, of 0] by simp
  have a: "\<forall>k<n. follows srv (hop srv (redirect_target srv url) k)"
    using Suc.prems(1) by (auto dest: spec [of _ "Suc k" for k])
  have b: "\<not> follows srv (hop srv (redirect_target srv url) n)" using Suc.prems(2) by simp
  have m: "map (hop srv url) [0..<Suc n]
             = url # map (hop srv (redirect_target srv url)) [0..<n]"
    by (simp only: upt_conv_Cons [of 0 "Suc n"] map_Suc_upt [symmetric]) (simp del: upt_Suc)
  show ?case
    using Suc.IH [OF a b, of "rs @ [url]"] r
    by (simp only: m download_redirect hop.simps append_Cons append_Nil append_assoc)
qed

text \<open>If \<open>download\<close> ends, it did not ask again after some answer of the chain.\<close>

lemma download_settles_only_off_redirects:
  assumes "download srv url rs = Some y"
  shows "\<exists>k. \<not> follows srv (hop srv url k)"
  using assms
proof (induction rule: download.raw_induct [rotated 1, consumes 1])
  case (1 dl srv url rs y)
  show ?case
  proof (cases "follows srv url")
    case False
    then show ?thesis by (intro exI [of _ 0]) simp
  next
    case True
    then have "dl srv (redirect_target srv url) (rs @ [url]) = Some y"
      using 1(2) by (auto simp: follows_def redirect_target_def split: response.splits)
    from 1(1) [OF this] obtain k where "\<not> follows srv (hop srv (redirect_target srv url) k)"
      by blast
    then show ?thesis by (intro exI [of _ "Suc k"]) simp
  qed
qed

lemma https_archive_host: "https (archive_host @ s)"
  by (simp add: https_def archive_host_def)

lemma loop_server_redirects:
  "follows loop_server (hop loop_server ''https://data.gharchive.org/a'' k)"
proof -
  have "hop loop_server ''https://data.gharchive.org/a'' k = ''https://data.gharchive.org/a''"
    by (induction k) (simp_all add: redirect_target_def loop_server_def https_def)
  then show ?thesis by (simp add: follows_def loop_server_def https_def)
qed

lemma chain_server_reply:
  "chain_server (archive_host @ s)
     = (if length s < 12 then Response 301 (archive_host @ s @ ''a'') [] Before
        else Response 200 [] ''data'' Before)"
  using https_archive_host [of s] by (simp add: chain_server_def archive_host_def)

lemma hop_chain_server:
  "length s + k \<le> 12 \<Longrightarrow>
   hop chain_server (archive_host @ s) k = archive_host @ s @ replicate k (CHR ''a'')"
proof (induction k arbitrary: s)
  case 0
  show ?case by simp
next
  case (Suc k)
  have "redirect_target chain_server (archive_host @ s) = archive_host @ (s @ ''a'')"
    using Suc.prems by (simp add: redirect_target_def chain_server_reply)
  then show ?case
    using Suc.IH [of "s @ ''a''"] Suc.prems
    by (simp add: replicate_app_Cons_same)
qed

lemma hop_chain_server_host:
  "k \<le> 12 \<Longrightarrow> hop chain_server archive_host k = archive_host @ replicate k (CHR ''a'')"
  using hop_chain_server [of "[]" k] by simp

text \<open>
  C6 as the spec states it fails: on a cycle of redirects \<open>download\<close> never ends, with an
  error or otherwise.
\<close>

theorem download_redirect_cycle_never_settles:
  "download loop_server ''https://data.gharchive.org/a'' [] = None"
proof (cases "download loop_server ''https://data.gharchive.org/a'' []")
  case None
  then show ?thesis .
next
  case (Some y)
  from download_settles_only_off_redirects [OF this] show ?thesis
    using loop_server_redirects by blast
qed

text \<open>
  C6, amended. \<open>download\<close> has no cap on the redirects it follows and no redirect-loop
  error. It asks again after every 301 and 302 answer that finds the partial file there
  to remove. When the chain reaches, after any number \<open>n\<close> of such answers, an answer of
  another kind, \<open>download\<close> ends as that answer says, having asked for the \<open>n\<close> URLs before
  it: it resolves on 200; it rejects on another status, on a transport error, and when
  \<^verbatim>\<open>get\<close> throws on the Location it is given (then without asking for it); the process
  crashes with \<^verbatim>\<open>ENOENT\<close> when the partial file of a status other than 200 is not there
  yet. When every answer of the chain is such a redirect, as on a cycle, \<open>download\<close>
  never ends.
\<close>

theorem download_follows_every_redirect:
  "((\<forall>k<n. follows srv (hop srv url k)) \<and> \<not> follows srv (hop srv url n) \<longrightarrow>
      download srv url rs = Some (settle srv (hop srv url n) (rs @ map (hop srv url) [0..<n])))
   \<and> ((\<forall>k. follows srv (hop srv url k)) \<longrightarrow> download srv url rs = None)"
proof (intro conjI impI)
  assume "(\<forall>k<n. follows srv (hop srv url k)) \<and> \<not> follows srv (hop srv url n)"
  then show "download srv url rs
               = Some (settle srv (hop srv url n) (rs @ map (hop srv url) [0..<n]))"
    using download_chain by blast
next
  assume a: "\<forall>k. follows srv (hop srv url k)"
  show "download srv url rs = None"
  proof (cases "download srv url rs")
    case None
    then show ?thesis .
  next
    case (Some y)
    from download_settles_only_off_redirects [OF this] a show ?thesis by blast
  qed
qed

theorem download_follows_every_redirect_witness:
  "list_all (\<lambda>k. follows chain_server (hop chain_server ''https://data.gharchive.org/'' k))
     [0..<12] \<and>
   \<not> follows chain_server (hop chain_server ''https://data.gharchive.org/'' 12) \<and>
   download chain_server ''https://data.gharchive.org/'' []
     = Some (Resolved, Some ''data'', map (hop chain_server ''https://data.gharchive.org/'') [0..<13]) \<and>
   hop chain_server ''https://data.gharchive.org/'' 12 = ''https://data.gharchive.org/aaaaaaaaaaaa'' \<and>
   (\<forall>k. follows loop_server (hop loop_server ''https://data.gharchive.org/a'' k)) \<and>
   download loop_server ''https://data.gharchive.org/a'' [] = None \<and>
   follows relative_server ''https://data.gharchive.org/2024-01-01-5.json.gz'' \<and>
   \<not> follows relative_server ''/2024-01-01-5.json.gz'' \<and>
   download relative_server ''https://data.gharchive.org/2024-01-01-5.json.gz'' []
     = Some (Rejected TypeError, Some [], [''https://data.gharchive.org/2024-01-01-5.json.gz''])"
proof -
  let ?v = "''https://data.gharchive.org/2024-01-01-5.json.gz''"
  have a: "\<forall>k<12. follows chain_server (hop chain_server archive_host k)"
    by (simp add: hop_chain_server_host follows_def chain_server_reply)
  have b: "\<not> follows chain_server (hop chain_server archive_host 12)"
    by (simp add: hop_chain_server_host follows_def chain_server_reply)
  have s: "settle chain_server (hop chain_server archive_host 12) rs
             = (Resolved, Some ''data'', rs @ [hop chain_server archive_host 12])" for rs
    by (simp add: hop_chain_server_host settle_def chain_server_reply)
  have "hop chain_server archive_host 12 = archive_host @ replicate 12 (CHR ''a'')"
    by (rule hop_chain_server_host) simp
  also have "\<dots> = ''https://data.gharchive.org/aaaaaaaaaaaa''"
    by (simp add: numeral_eq_Suc archive_host_def)
  finally have e: "hop chain_server archive_host 12 = ''https://data.gharchive.org/aaaaaaaaaaaa''" .
  have c: "\<forall>k. follows loop_server (hop loop_server ''https://data.gharchive.org/a'' k)"
    by (simp add: loop_server_redirects)
  have a': "list_all (\<lambda>k. follows chain_server (hop chain_server archive_host k)) [0..<12]"
    using a by (simp add: list_all_iff)
  have r0: "follows relative_server ?v"
    by (simp add: follows_def relative_server_def https_def)
  have t: "redirect_target relative_server ?v = ''/2024-01-01-5.json.gz''"
    by (simp add: redirect_target_def relative_server_def https_def)
  have r1: "\<not> follows relative_server ''/2024-01-01-5.json.gz''"
    by (simp add: follows_def relative_server_def https_def)
  have r0': "\<forall>k<1. follows relative_server (hop relative_server ?v k)"
    using r0 by simp
  have r1': "\<not> follows relative_server (hop relative_server ?v 1)"
    using r1 t by simp
  have st: "settle relative_server (hop relative_server ?v 1) rs = (Rejected TypeError, Some [], rs)" for rs
    by (simp add: t settle_def relative_server_def https_def leftover_def)
  have m: "map (hop chain_server archive_host) [0..<13]
             = map (hop chain_server archive_host) [0..<12] @ [hop chain_server archive_host 12]"
    by (simp add: numeral_eq_Suc)
  have d1: "download chain_server archive_host []
              = Some (Resolved, Some ''data'', map (hop chain_server archive_host) [0..<13])"
    using a b download_follows_every_redirect [of 12 chain_server archive_host "[]"]
    by (simp only: s m append_Nil) simp
  have d2: "download loop_server ''https://data.gharchive.org/a'' [] = None"
    using c download_follows_every_redirect [of 0 loop_server "''https://data.gharchive.org/a''" "[]"]
    by blast
  have d3: "download relative_server ?v [] = Some (Rejected TypeError, Some [], [?v])"
    using r0' r1' download_follows_every_redirect [of 1 relative_server ?v "[]"]
    by (simp only: st) simp
  show ?thesis
    using a' b d1 e c d2 r0 r1 d3 unfolding archive_host_def by (intro conjI)
qed

subsection \<open>Line boundaries\<close>

lemma split_char_not_Nil [simp]: "split_char c s \<noteq> []"
  by (induction s) (auto split: list.splits)

lemma split_char_append:
  "split_char c (x @ y) = butlast (split_char c x) @ split_char c (last (split_char c x) @ y)"
proof (induction x)
  case Nil
  show ?case by simp
next
  case (Cons a x)
  show ?case
  proof (cases "a = c")
    case True
    then show ?thesis using Cons.IH by simp
  next
    case False
    obtain l ls where sp: "split_char c x = l # ls"
      by (cases "split_char c x") auto
    show ?thesis
    proof (cases ls)
      case Nil
      then show ?thesis using False sp Cons.IH by simp
    next
      case (Cons l' ls')
      then show ?thesis using False sp Cons.IH by simp
    qed
  qed
qed

lemma processLines_append:
  "processLines P (xs @ ys) st =
     (case processLines P xs st of Inl e \<Rightarrow> Inl e | Inr st' \<Rightarrow> processLines P ys st')"
  by (induction xs arbitrary: st) (auto split: sum.splits)

lemma processLines_snoc:
  "processLines P (xs @ [x]) st =
     (case processLines P xs st of Inl e \<Rightarrow> Inl e | Inr st' \<Rightarrow> P x st')"
  by (simp add: processLines_append split: sum.splits)

text \<open>
  Whatever \<open>processLine\<close> does, reading the stream chunk by chunk gives it the lines of
  the whole text, in order: the remainder carried across a chunk boundary loses and
  repeats nothing.
\<close>

lemma split_char_no_sep: "c \<notin> set s \<Longrightarrow> split_char c s = [s]"
  by (induction s) auto

lemma split_char_pieces: "l \<in> set (split_char c s) \<Longrightarrow> c \<notin> set l"
  by (induction s arbitrary: l) (auto split: if_splits list.splits)

lemma last_split_char: "c \<notin> set (last (split_char c s))"
  by (rule split_char_pieces [of _ c s]) simp

lemma readStream_whole:
  "CHR 0x0A \<notin> set remainder \<Longrightarrow>
   readStream P stream remainder st =
     processLines P (split_char (CHR 0x0A) (remainder @ concat stream)) st"
proof (induction stream arbitrary: remainder st)
  case Nil
  then show ?case by (simp add: split_char_no_sep split: sum.splits)
next
  case (Cons chunk stream)
  let ?ls = "split_char (CHR 0x0A) (remainder @ chunk)"
  have whole: "split_char (CHR 0x0A) (remainder @ concat (chunk # stream))
                 = butlast ?ls @ split_char (CHR 0x0A) (last ?ls @ concat stream)"
    using split_char_append [of "CHR 0x0A" "remainder @ chunk" "concat stream"] by simp
  have "readStream P (chunk # stream) remainder st =
          (case processLines P (butlast ?ls) st of
             Inl e \<Rightarrow> Inl e
           | Inr st' \<Rightarrow> readStream P stream (last ?ls) st')"
    by (simp add: Let_def)
  also have "\<dots> =
          (case processLines P (butlast ?ls) st of
             Inl e \<Rightarrow> Inl e
           | Inr st' \<Rightarrow> processLines P (split_char (CHR 0x0A) (last ?ls @ concat stream)) st')"
    using Cons.IH [OF last_split_char] by (simp split: sum.splits)
  also have "\<dots> = processLines P (split_char (CHR 0x0A) (remainder @ concat (chunk # stream))) st"
    unfolding whole by (simp add: processLines_append)
  finally show ?case .
qed

lemma processLines_record: "processLines record_line ls seen = Inr (seen @ ls)"
  by (induction ls arbitrary: seen) (simp_all add: record_line_def)

text \<open>
  What \<open>split_char\<close> is: the pieces hold no separator, and joining them with the
  separator gives the text back. A carriage return is a character like any other.
\<close>

lemma join_split_char: "join [c] (split_char c s) = s"
proof (induction s)
  case Nil
  show ?case by simp
next
  case (Cons x s)
  obtain l ls where sp: "split_char c s = l # ls"
    by (cases "split_char c s") auto
  show ?case using Cons.IH sp by (cases ls) auto
qed

lemma split_lf_keeps_cr:
  "split_char (CHR 0x0A) [CHR ''a'', CHR 0x0D, CHR 0x0A, CHR ''b'', CHR 0x0D, CHR ''c'']
     = [[CHR ''a'', CHR 0x0D], [CHR ''b'', CHR 0x0D, CHR ''c'']]"
  by simp

text \<open>
  C1. For every text and every way of cutting it into chunks, the lines that the chunked
  reader of loadEvents hands to \<open>processLine\<close>, in order, are the pieces of the whole text
  split once at the line feeds (and only there: see \<open>join_split_char\<close>,
  \<open>split_char_pieces\<close> and \<open>split_lf_keeps_cr\<close>).
\<close>

theorem chunked_lines_eq_split:
  "readStream record_line chunks [] [] = Inr (split_char (CHR 0x0A) (concat chunks))"
  by (simp add: readStream_whole processLines_record)

subsection \<open>Schema columns\<close>

lemma split_char_sep: "split_char c (a @ c # b) = split_char c a @ split_char c b"
  by (induction a) (auto split: list.splits)

lemma split_char_join:
  "segs \<noteq> [] \<Longrightarrow> list_all (\<lambda>s. c \<notin> set s) segs \<Longrightarrow> split_char c (join [c] segs) = segs"
proof (induction segs)
  case Nil
  then show ?case by simp
next
  case (Cons s segs)
  show ?case
  proof (cases segs)
    case Nil
    then show ?thesis using Cons.prems by (simp add: split_char_no_sep)
  next
    case (Cons s' rest)
    then show ?thesis using Cons.IH Cons.prems
      by (simp add: split_char_sep split_char_no_sep)
  qed
qed

lemma COMMON_DDL_segments:
  "COMMON_DDL = join '',''
     [''\<newline>  id TEXT PRIMARY KEY'',
      ''\<newline>  created_at TEXT NOT NULL'',
      ''\<newline>  public INTEGER NOT NULL DEFAULT 1'',
      ''\<newline>  actor_id INTEGER'',
      ''\<newline>  actor_login TEXT'',
      ''\<newline>  actor_display_login TEXT'',
      ''\<newline>  actor_gravatar_id TEXT'',
      ''\<newline>  actor_avatar_url TEXT'',
      ''\<newline>  actor_url TEXT'',
      ''\<newline>  repo_id INTEGER'',
      ''\<newline>  repo_name TEXT'',
      ''\<newline>  repo_url TEXT'',
      ''\<newline>  org_id INTEGER'',
      ''\<newline>  org_login TEXT'',
      ''\<newline>  org_gravatar_id TEXT'',
      ''\<newline>  org_avatar_url TEXT'',
      ''\<newline>  org_url TEXT'',
      ''\<newline>  other TEXT'']"
  by (simp add: COMMON_DDL_def)

lemma COMMON_DDL_split:
  "split_char (CHR '','') COMMON_DDL =
     [''\<newline>  id TEXT PRIMARY KEY'',
      ''\<newline>  created_at TEXT NOT NULL'',
      ''\<newline>  public INTEGER NOT NULL DEFAULT 1'',
      ''\<newline>  actor_id INTEGER'',
      ''\<newline>  actor_login TEXT'',
      ''\<newline>  actor_display_login TEXT'',
      ''\<newline>  actor_gravatar_id TEXT'',
      ''\<newline>  actor_avatar_url TEXT'',
      ''\<newline>  actor_url TEXT'',
      ''\<newline>  repo_id INTEGER'',
      ''\<newline>  repo_name TEXT'',
      ''\<newline>  repo_url TEXT'',
      ''\<newline>  org_id INTEGER'',
      ''\<newline>  org_login TEXT'',
      ''\<newline>  org_gravatar_id TEXT'',
      ''\<newline>  org_avatar_url TEXT'',
      ''\<newline>  org_url TEXT'',
      ''\<newline>  other TEXT'']"
  unfolding COMMON_DDL_segments by (rule split_char_join) simp_all

lemma common_columns:
  "map parse_column (split_char (CHR '','') COMMON_DDL) =
     [\<lparr> col_name = ''id'', not_null = False, primary_key = True \<rparr>,
      \<lparr> col_name = ''created_at'', not_null = True, primary_key = False \<rparr>,
      \<lparr> col_name = ''public'', not_null = True, primary_key = False \<rparr>,
      plain_column ''actor_id'', plain_column ''actor_login'', plain_column ''actor_display_login'',
      plain_column ''actor_gravatar_id'', plain_column ''actor_avatar_url'', plain_column ''actor_url'',
      plain_column ''repo_id'', plain_column ''repo_name'', plain_column ''repo_url'',
      plain_column ''org_id'', plain_column ''org_login'', plain_column ''org_gravatar_id'',
      plain_column ''org_avatar_url'', plain_column ''org_url'', plain_column ''other'']"
  unfolding COMMON_DDL_split
  by (simp add: parse_column_def trim_def is_space_def adjacent_def plain_column_def)

lemma registry_names:
  "map (\<lambda>(k, s). (k, table s, columnNames (columns s))) EVENT_SCHEMAS =
    [(''PushEvent'', ''push_events'', [''repository_id'', ''push_id'', ''ref'', ''head'', ''before_sha'']),
     (''PullRequestEvent'', ''pull_request_events'',
        [''action'', ''number'', ''pull_request'', ''label'', ''labels'', ''assignee'', ''assignees'']),
     (''IssuesEvent'', ''issues_events'',
        [''action'', ''issue'', ''label'', ''labels'', ''assignee'', ''assignees'']),
     (''IssueCommentEvent'', ''issue_comment_events'', [''action'', ''issue'', ''comment'']),
     (''CreateEvent'', ''create_events'',
        [''ref'', ''ref_type'', ''full_ref'', ''master_branch'', ''description'', ''pusher_type'']),
     (''DeleteEvent'', ''delete_events'', [''ref'', ''ref_type'', ''full_ref'', ''pusher_type'']),
     (''WatchEvent'', ''watch_events'', [''action'']),
     (''ForkEvent'', ''fork_events'', [''action'', ''forkee'']),
     (''ReleaseEvent'', ''release_events'', [''action'', ''release'']),
     (''MemberEvent'', ''member_events'', [''action'', ''member'']),
     (''CommitCommentEvent'', ''commit_comment_events'', [''action'', ''comment'']),
     (''PublicEvent'', ''public_events'', []),
     (''GollumEvent'', ''gollum_events'', [''pages'']),
     (''PullRequestReviewEvent'', ''pull_request_review_events'', [''action'', ''review'', ''pull_request'']),
     (''PullRequestReviewCommentEvent'', ''pull_request_review_comment_events'',
        [''action'', ''comment'', ''pull_request'']),
     (''DiscussionEvent'', ''discussion_events'', [''action'', ''discussion''])]"
  by (simp add: EVENT_SCHEMAS_def columnNames_def trim_def is_space_def)

lemma registry_parsed:
  "list_all (\<lambda>(k, s). columns s \<noteq> [] \<longrightarrow>
      map parse_column (split_char (CHR '','') (''\<newline>      '' @ columns s))
        = map plain_column (columnNames (columns s))) EVENT_SCHEMAS"
  by (simp add: EVENT_SCHEMAS_def columnNames_def parse_column_def plain_column_def adjacent_def trim_def is_space_def)

lemma join_append:
  "xs \<noteq> [] \<Longrightarrow> ys \<noteq> [] \<Longrightarrow> join sep (xs @ ys) = join sep xs @ sep @ join sep ys"
proof (induction xs)
  case Nil
  then show ?case by simp
next
  case (Cons x xs)
  show ?case
  proof (cases xs)
    case Nil
    then show ?thesis using Cons.prems by (cases ys) simp_all
  next
    case (Cons x' xs')
    then show ?thesis using Cons.IH Cons.prems by simp
  qed
qed

lemma trim_plain:
  assumes "plain_name n" "list_all is_space ws"
  shows "trim (ws @ n) = n"
proof -
  from assms(1) obtain c cs where n: "n = c # cs" and c: "\<not> is_space c"
    by (cases n) (auto simp: plain_name_def)
  have l: "\<not> is_space (last n)"
    using assms(1) by (auto simp: plain_name_def list_all_iff)
  have "dropWhile is_space (ws @ n) = n"
    using assms(2) n c by (simp add: dropWhile_append3 list_all_iff dropWhile_append2)
  moreover have "dropWhile is_space (rev n) = rev n"
  proof -
    have "n = butlast n @ [last n]" using n by simp
    then have r: "rev n = last n # rev (butlast n)"
      by (metis rev.simps(2) rev_rev_ident rev_singleton_conv rev_append append_Cons append_Nil)
    have "dropWhile is_space (last n # rev (butlast n)) = last n # rev (butlast n)"
      using l by simp
    then show ?thesis by (simp only: r)
  qed
  ultimately show ?thesis by (simp add: trim_def)
qed

lemma split_join_plain:
  "ns \<noteq> [] \<Longrightarrow> list_all plain_name ns \<Longrightarrow> list_all is_space ws \<Longrightarrow> CHR '','' \<notin> set ws \<Longrightarrow>
   map trim (split_char (CHR '','') (ws @ join '', '' ns)) = ns"
proof (induction ns arbitrary: ws)
  case Nil
  then show ?case by simp
next
  case (Cons n ns)
  have pn: "plain_name n" using Cons.prems by simp
  then have nc: "CHR '','' \<notin> set n" by (auto simp: plain_name_def list_all_iff)
  show ?case
  proof (cases ns)
    case Nil
    then show ?thesis using pn nc Cons.prems
      by (simp add: split_char_no_sep trim_plain)
  next
    case (Cons n' ns')
    have sp: "list_all is_space '' ''" by (simp add: is_space_def)
    have "ws @ join '', '' (n # ns) = (ws @ n) @ CHR '','' # ('' '' @ join '', '' ns)"
      using Cons by simp
    then have "split_char (CHR '','') (ws @ join '', '' (n # ns))
                 = (ws @ n) # split_char (CHR '','') ('' '' @ join '', '' ns)"
      using nc Cons.prems by (simp only: split_char_sep) (simp add: split_char_no_sep)
    then show ?thesis
      using Cons.IH [of "'' ''"] Cons.prems Cons pn sp by (simp add: trim_plain)
  qed
qed

lemma col_name_parse_column:
  "col_name (parse_column d) = (case split_space (trim d) of name # _ \<Rightarrow> name | [] \<Rightarrow> [])"
  by (simp add: parse_column_def Let_def)

lemma columnNames_parse:
  "ddl \<noteq> [] \<Longrightarrow> columnNames ddl = map col_name (map parse_column (split_char (CHR '','') ddl))"
  by (simp add: columnNames_def col_name_parse_column)

lemma COMMON_DDL_not_Nil: "COMMON_DDL \<noteq> []"
  by (simp add: COMMON_DDL_def)

lemma columnNames_COMMON_DDL: "columnNames COMMON_DDL = common_names"
  by (simp add: columnNames_parse [OF COMMON_DDL_not_Nil] common_columns plain_column_def common_names_def)

lemma registry_facts:
  assumes "(k, s) \<in> set EVENT_SCHEMAS"
  shows "list_all plain_name (columnNames (columns s))"
    and "distinct (common_names @ columnNames (columns s))"
    and "columns s \<noteq> [] \<Longrightarrow>
           map parse_column (split_char (CHR '','') (''\<newline>      '' @ columns s))
             = map plain_column (columnNames (columns s))"
proof -
  let ?L = "map (\<lambda>(k, s). (k, table s, columnNames (columns s))) EVENT_SCHEMAS"
  have "list_all (\<lambda>(k, t, ns). list_all plain_name ns \<and> distinct (common_names @ ns)) ?L"
    unfolding registry_names by (simp add: plain_name_def is_space_def common_names_def)
  then have "list_all (\<lambda>(k, s). list_all plain_name (columnNames (columns s)) \<and>
                distinct (common_names @ columnNames (columns s))) EVENT_SCHEMAS"
    by (simp add: list_all_iff case_prod_beta)
  with assms show "list_all plain_name (columnNames (columns s))"
    and "distinct (common_names @ columnNames (columns s))"
    by (auto simp: list_all_iff)
  show "columns s \<noteq> [] \<Longrightarrow>
           map parse_column (split_char (CHR '','') (''\<newline>      '' @ columns s))
             = map plain_column (columnNames (columns s))"
    using registry_parsed assms by (auto simp: list_all_iff)
qed

lemma registry_keys:
  "map fst EVENT_SCHEMAS =
     [''PushEvent'', ''PullRequestEvent'', ''IssuesEvent'', ''IssueCommentEvent'', ''CreateEvent'',
      ''DeleteEvent'', ''WatchEvent'', ''ForkEvent'', ''ReleaseEvent'', ''MemberEvent'',
      ''CommitCommentEvent'', ''PublicEvent'', ''GollumEvent'', ''PullRequestReviewEvent'',
      ''PullRequestReviewCommentEvent'', ''DiscussionEvent'']"
  by (simp add: EVENT_SCHEMAS_def)

lemma registry_tables:
  "map (\<lambda>(k, s). table s) EVENT_SCHEMAS =
     [''push_events'', ''pull_request_events'', ''issues_events'', ''issue_comment_events'',
      ''create_events'', ''delete_events'', ''watch_events'', ''fork_events'', ''release_events'',
      ''member_events'', ''commit_comment_events'', ''public_events'', ''gollum_events'',
      ''pull_request_review_events'', ''pull_request_review_comment_events'', ''discussion_events'']"
  by (simp add: EVENT_SCHEMAS_def)

lemma registry_keys_distinct: "distinct (map fst EVENT_SCHEMAS)"
  unfolding registry_keys by simp

lemma registry_tables_distinct: "distinct (map (\<lambda>(k, s). table s) EVENT_SCHEMAS)"
  unfolding registry_tables by simp

lemma table_columns_table_for:
  assumes "(k, s) \<in> set EVENT_SCHEMAS"
  shows "table_columns (table_for s) =
           map parse_column (split_char (CHR '','') COMMON_DDL) @ map plain_column (columnNames (columns s))"
proof (cases "columns s = []")
  case True
  then show ?thesis by (simp add: table_for_def table_body_def columnNames_def)
next
  case False
  have "table_body s = COMMON_DDL @ CHR '','' # (''\<newline>      '' @ columns s)"
    using False by (simp add: table_body_def)
  then show ?thesis
    using registry_facts(3) [OF assms False] by (simp add: table_for_def split_char_sep)
qed

lemma created_columns_eq:
  assumes "(k, s) \<in> set EVENT_SCHEMAS"
  shows "created_columns s = common_names @ columnNames (columns s)"
proof -
  have "created_columns s = map col_name (table_columns (table_for s))"
    by (simp add: created_columns_def table_for_def)
  also have "\<dots> = columnNames COMMON_DDL @ map col_name (map plain_column (columnNames (columns s)))"
    unfolding table_columns_table_for [OF assms]
    by (simp add: columnNames_parse [OF COMMON_DDL_not_Nil])
  also have "map col_name (map plain_column (columnNames (columns s))) = columnNames (columns s)"
    by (simp add: plain_column_def comp_def)
  finally show ?thesis by (simp add: columnNames_COMMON_DDL)
qed

lemma common_names_plain: "list_all plain_name common_names"
  by (simp add: common_names_def plain_name_def is_space_def)

lemma inserted_columns_eq:
  assumes "(k, s) \<in> set EVENT_SCHEMAS"
  shows "inserted_columns s = common_names @ columnNames (columns s)"
proof -
  let ?ns = "columnNames (columns s)"
  have "insert_columns s = join '', '' (common_names @ ?ns)"
  proof (cases "?ns = []")
    case True
    then show ?thesis by (simp add: insert_columns_def COMMON_COLS_def columnNames_COMMON_DDL)
  next
    case False
    have "common_names \<noteq> []" by (simp add: common_names_def)
    from join_append [OF this False, of "'', ''"] False show ?thesis
      by (simp add: insert_columns_def COMMON_COLS_def columnNames_COMMON_DDL Let_def)
  qed
  moreover have "list_all plain_name (common_names @ ?ns)"
    using common_names_plain registry_facts(1) [OF assms] by simp
  moreover have "common_names @ ?ns \<noteq> []" by (simp add: common_names_def)
  ultimately show ?thesis
    using split_join_plain [of "common_names @ ?ns" "[]"] by (simp add: inserted_columns_def)
qed

lemma placeholders_eq:
  assumes "(k, s) \<in> set EVENT_SCHEMAS"
  shows "map trim (split_char (CHR '','') (insert_placeholders s))
           = map (\<lambda>_. ''?'') (common_names @ columnNames (columns s))"
proof -
  let ?ns = "columnNames (columns s)"
  let ?q = "\<lambda>_::string. ''?''"
  have "insert_placeholders s = join '', '' (map ?q (common_names @ ?ns))"
  proof (cases "?ns = []")
    case True
    then show ?thesis
      by (simp add: insert_placeholders_def COMMON_PLACEHOLDERS_def columnNames_COMMON_DDL)
  next
    case False
    have "map ?q common_names \<noteq> []" by (simp add: common_names_def)
    moreover have "map ?q ?ns \<noteq> []" using False by simp
    ultimately show ?thesis
      using join_append [of "map ?q common_names" "map ?q ?ns" "'', ''"] False
      by (simp add: insert_placeholders_def COMMON_PLACEHOLDERS_def columnNames_COMMON_DDL Let_def)
  qed
  moreover have "plain_name ''?''" by (simp add: plain_name_def is_space_def)
  then have "list_all plain_name (map ?q (common_names @ ?ns))"
    by (auto simp: list_all_iff)
  moreover have "map ?q (common_names @ ?ns) \<noteq> []" by (simp add: common_names_def)
  ultimately show ?thesis
    using split_join_plain [of "map ?q (common_names @ ?ns)" "[]"] by simp
qed

lemma create_table_fresh:
  "d (table s) = None \<Longrightarrow> distinct (created_columns s) \<Longrightarrow>
   create_table (table s) (table_body s) d = Inr (d(table s \<mapsto> table_for s))"
  by (simp add: create_table_def created_columns_def table_for_def Let_def)

lemma create_tables_fresh:
  "distinct (map table ss) \<Longrightarrow> \<forall>s \<in> set ss. d (table s) = None \<Longrightarrow>
   \<forall>s \<in> set ss. distinct (created_columns s) \<Longrightarrow>
   create_tables ss d = Inr (d ++ map_of (map (\<lambda>s. (table s, table_for s)) ss))"
proof (induction ss arbitrary: d)
  case Nil
  then show ?case by simp
next
  case (Cons s ss)
  let ?d = "d(table s \<mapsto> table_for s)"
  have c: "create_table (table s) (table_body s) d = Inr ?d"
    using Cons.prems by (simp add: create_table_fresh)
  have "table s \<notin> table ` set ss" using Cons.prems(1) by simp
  then have "\<forall>s' \<in> set ss. table s' \<noteq> table s" by (metis imageI)
  then have n: "\<forall>s' \<in> set ss. ?d (table s') = None"
    using Cons.prems(2) by simp
  have ih: "create_tables ss ?d = Inr (?d ++ map_of (map (\<lambda>s. (table s, table_for s)) ss))"
  proof (rule Cons.IH)
    show "distinct (map table ss)" using Cons.prems(1) by simp
    show "\<forall>s' \<in> set ss. ?d (table s') = None" by (rule n)
    show "\<forall>s \<in> set ss. distinct (created_columns s)" using Cons.prems(3) by simp
  qed
  have "table s \<notin> dom (map_of (map (\<lambda>s. (table s, table_for s)) ss))"
    using Cons.prems(1) by (auto simp: dom_map_of_conv_image_fst image_iff)
  then have eq: "?d ++ map_of (map (\<lambda>s. (table s, table_for s)) ss)
               = d ++ map_of (map (\<lambda>s. (table s, table_for s)) (s # ss))"
    by (auto simp: map_add_def fun_eq_iff split: option.splits)
  have "create_tables (s # ss) d = create_tables ss ?d"
    by (simp add: c)
  then show ?case by (simp only: ih eq)
qed

lemma table_snd: "(\<lambda>(k, s). table s) = (\<lambda>x. table (snd x))"
  by (simp add: fun_eq_iff case_prod_beta)

lemma created_columns_distinct:
  "(k, s) \<in> set EVENT_SCHEMAS \<Longrightarrow> distinct (created_columns s)"
  using registry_facts(2) created_columns_eq by simp

lemma createArchiveDatabase_fresh: "createArchiveDatabase = Inr fresh_database"
proof -
  have "distinct (map table (map snd EVENT_SCHEMAS))"
    using registry_tables_distinct by (simp add: comp_def table_snd)
  moreover have "\<forall>s \<in> set (map snd EVENT_SCHEMAS). distinct (created_columns s)"
    using created_columns_distinct by auto
  ultimately have "create_tables (map snd EVENT_SCHEMAS) Map.empty
      = Inr (Map.empty ++ map_of (map (\<lambda>s. (table s, table_for s)) (map snd EVENT_SCHEMAS)))"
    by (intro create_tables_fresh) simp_all
  moreover have "map (\<lambda>s. (table s, table_for s)) (map snd es)
                   = map (\<lambda>(k, s). (table s, table_for s)) es" for es :: "(string \<times> EventSchema) list"
    by (induction es) auto
  ultimately show ?thesis
    by (simp only: createArchiveDatabase_def fresh_database_def empty_map_add)
qed

lemma fresh_database_table:
  "(k, s) \<in> set EVENT_SCHEMAS \<Longrightarrow> fresh_database (table s) = Some (table_for s)"
proof -
  assume a: "(k, s) \<in> set EVENT_SCHEMAS"
  have "distinct (map fst (map (\<lambda>(k, s). (table s, table_for s)) EVENT_SCHEMAS))"
    using registry_tables_distinct by (simp add: comp_def table_snd case_prod_beta)
  moreover have "(table s, table_for s) \<in> set (map (\<lambda>(k, s). (table s, table_for s)) EVENT_SCHEMAS)"
    using a by force
  ultimately show ?thesis
    unfolding fresh_database_def by (rule map_of_is_SomeI)
qed

lemma fresh_has_archive_tables: "has_archive_tables fresh_database"
  by (auto simp: has_archive_tables_def fresh_database_table)

lemma has_archive_tablesD:
  assumes "has_archive_tables d" "(k, s) \<in> set EVENT_SCHEMAS"
  obtains t where "d (table s) = Some t" "table_columns t = table_columns (table_for s)"
proof -
  from assms have "case d (table s) of None \<Rightarrow> False
                   | Some t \<Rightarrow> table_columns t = table_columns (table_for s)"
    unfolding has_archive_tables_def by blast
  then show thesis using that by (cases "d (table s)") auto
qed

lemma count_marks: "length (filter (\<lambda>m. m = ''?'') (map (\<lambda>_. ''?'') xs)) = length xs"
  by (induction xs) auto

lemma prepare_insert_archive:
  assumes "has_archive_tables d" "(k, s) \<in> set EVENT_SCHEMAS"
  shows "prepare_insert d (table s) (insert_columns s) (insert_placeholders s) = Inr (statement_for s)"
proof -
  from has_archive_tablesD [OF assms] obtain t where
    t: "d (table s) = Some t" "table_columns t = table_columns (table_for s)" .
  have cols: "map col_name (table_columns t) = created_columns s"
    using t(2) by (simp add: created_columns_def table_for_def)
  have names: "map trim (split_char (CHR '','') (insert_columns s)) = created_columns s"
    using inserted_columns_eq [OF assms(2)] created_columns_eq [OF assms(2)]
    by (simp add: inserted_columns_def)
  have marks: "map trim (split_char (CHR '','') (insert_placeholders s))
                 = map (\<lambda>_. ''?'') (created_columns s)"
    using placeholders_eq [OF assms(2)] created_columns_eq [OF assms(2)] by simp
  have "prepare_insert d (table s) (insert_columns s) (insert_placeholders s) =
          (if \<not> set (created_columns s) \<subseteq> set (map col_name (table_columns t))
           then Inl (SqliteError (''table '' @ table s @ '' has no such column''))
           else if length (map (\<lambda>_::string. ''?'') (created_columns s)) \<noteq> length (created_columns s)
           then Inl (SqliteError ''values and columns differ in number'')
           else Inr \<lparr> target = table s, target_columns = created_columns s,
                      parameters = length (filter (\<lambda>m. m = ''?'')
                         (map (\<lambda>_::string. ''?'') (created_columns s))) \<rparr>)"
    unfolding prepare_insert_def Let_def names marks t(1) by (simp only: option.case)
  also have "\<dots> = Inr (statement_for s)"
    unfolding cols count_marks by (simp add: statement_for_def)
  finally show ?thesis .
qed

lemma prepare_all_archive:
  "\<forall>(k, s) \<in> set es. prepare_insert d (table s) (insert_columns s) (insert_placeholders s)
       = Inr (statement_for s) \<Longrightarrow>
   prepare_all d es = Inr (\<lambda>key. map_option statement_for (map_of es key))"
proof (induction es)
  case Nil
  then show ?case by simp
next
  case (Cons e es)
  obtain k s where e: "e = (k, s)" by (cases e)
  have a: "prepare_insert d (table s) (insert_columns s) (insert_placeholders s) = Inr (statement_for s)"
    using Cons.prems e by simp
  have b: "prepare_all d es = Inr (\<lambda>key. map_option statement_for (map_of es key))"
    using Cons.IH Cons.prems by simp
  show ?case
    unfolding e by (simp add: a b fun_eq_iff)
qed

lemma prepareInserts_archive:
  "has_archive_tables d \<Longrightarrow> prepareInserts d = Inr archive_statements"
proof -
  assume "has_archive_tables d"
  then have "\<forall>(k, s) \<in> set EVENT_SCHEMAS.
      prepare_insert d (table s) (insert_columns s) (insert_placeholders s) = Inr (statement_for s)"
    using prepare_insert_archive by blast
  then have "prepare_all d EVENT_SCHEMAS = Inr (\<lambda>key. map_option statement_for (map_of EVENT_SCHEMAS key))"
    by (rule prepare_all_archive)
  then show ?thesis
    by (simp add: prepareInserts_def archive_statements_def [abs_def])
qed

lemma registry_lookup:
  "(k, s) \<in> set EVENT_SCHEMAS \<Longrightarrow> map_of EVENT_SCHEMAS k = Some s"
  using registry_keys_distinct by (rule map_of_is_SomeI)

text \<open>
  C2. For every entry of the registry, the table that its \<^verbatim>\<open>CREATE TABLE\<close> declares has
  the common columns followed by the columns the entry declares, no column name twice
  (so no declared column has the name of a common column), and the prepared insert
  lists the same columns in the same order, with one placeholder for each; the database
  is created and the statements are prepared without error.
\<close>

theorem schema_columns_agree:
  assumes "(eventType, schema) \<in> set EVENT_SCHEMAS"
  shows "created_columns schema = columnNames COMMON_DDL @ columnNames (columns schema) \<and>
         distinct (created_columns schema) \<and>
         inserted_columns schema = created_columns schema \<and>
         (\<exists>d t stmts s.
            createArchiveDatabase = Inr d \<and> d (table schema) = Some t \<and>
            map col_name (table_columns t) = created_columns schema \<and>
            prepareInserts d = Inr stmts \<and> stmts eventType = Some s \<and>
            target s = table schema \<and> target_columns s = created_columns schema \<and>
            parameters s = length (created_columns schema))"
proof (intro conjI)
  show "created_columns schema = columnNames COMMON_DDL @ columnNames (columns schema)"
    using created_columns_eq [OF assms] by (simp add: columnNames_COMMON_DDL)
  show "distinct (created_columns schema)"
    by (rule created_columns_distinct [OF assms])
  show "inserted_columns schema = created_columns schema"
    using inserted_columns_eq [OF assms] created_columns_eq [OF assms] by simp
  have "archive_statements eventType = Some (statement_for schema)"
    by (simp add: archive_statements_def registry_lookup [OF assms])
  moreover have "map col_name (table_columns (table_for schema)) = created_columns schema"
    by (simp add: created_columns_def table_for_def)
  ultimately show "\<exists>d t stmts s.
            createArchiveDatabase = Inr d \<and> d (table schema) = Some t \<and>
            map col_name (table_columns t) = created_columns schema \<and>
            prepareInserts d = Inr stmts \<and> stmts eventType = Some s \<and>
            target s = table schema \<and> target_columns s = created_columns schema \<and>
            parameters s = length (created_columns schema)"
    using createArchiveDatabase_fresh fresh_database_table [OF assms]
      prepareInserts_archive [OF fresh_has_archive_tables]
    by (intro exI [of _ fresh_database] exI [of _ "table_for schema"]
          exI [of _ archive_statements] exI [of _ "statement_for schema"])
       (simp add: statement_for_def)
qed

lemma watch_schema_registered: "(''WatchEvent'', watch_schema) \<in> set EVENT_SCHEMAS"
  by (simp add: EVENT_SCHEMAS_def watch_schema_def)

lemma watch_columnNames: "columnNames (columns watch_schema) = [''action'']"
  by (simp add: watch_schema_def columnNames_def trim_def is_space_def)

theorem schema_columns_agree_witness:
  "(''WatchEvent'', watch_schema) \<in> set EVENT_SCHEMAS \<and>
   created_columns watch_schema = columnNames COMMON_DDL @ [''action''] \<and>
   distinct (created_columns watch_schema) \<and>
   inserted_columns watch_schema = created_columns watch_schema"
  using schema_columns_agree [OF watch_schema_registered] watch_schema_registered
  by (simp add: watch_columnNames columnNames_COMMON_DDL common_names_def)

subsection \<open>Extraction\<close>

lemma or_empty_not_nullish: "\<not> nullish (or_empty v)"
  by (cases v) (auto simp: or_empty_def nullish_def truthy_def)

lemma coalesce_undefined: "property p k = JUndefined \<Longrightarrow> coalesce (property p k) JNull = JNull"
  by (simp add: coalesce_def nullish_def)

lemma json_undefined: "property p k = JUndefined \<Longrightarrow> json (property p k) = JNull"
  by (simp add: json_def nullish_def)

lemma extract_registry:
  "list_all (\<lambda>(k, s). \<forall>p. \<not> nullish p \<longrightarrow>
      (\<exists>vs. extract_fn s p = Inr vs \<and>
         list_all2 (\<lambda>key v. property p key = JUndefined \<longrightarrow> v = JNull) (payload_reads k) vs))
     EVENT_SCHEMAS"
  by (simp add: EVENT_SCHEMAS_def payload_reads_def payload_keys_def reading_def
      coalesce_def json_def nullish_def)

lemma reads_registry:
  "list_all (\<lambda>(k, t, ns). length (payload_reads k) = length ns)
     (map (\<lambda>(k, s). (k, table s, columnNames (columns s))) EVENT_SCHEMAS)"
  unfolding registry_names by (simp add: payload_reads_def payload_keys_def)


text \<open>
  C5. For every entry of the registry and every payload that is not \<^verbatim>\<open>null\<close> or
  \<^verbatim>\<open>undefined\<close> (every object, whatever fields it has), \<open>extract\<close> returns without
  throwing a list with one value for each declared column, and the value is \<^verbatim>\<open>null\<close>
  wherever the payload lacks the field that the column reads. \<open>processLine\<close> passes
  \<^verbatim>\<open>event.payload || {}\<close>, which is never \<^verbatim>\<open>null\<close> or \<^verbatim>\<open>undefined\<close>; for an absent payload
  every value is \<^verbatim>\<open>null\<close>.
\<close>

theorem extract_total:
  assumes "(eventType, schema) \<in> set EVENT_SCHEMAS"
  shows "(\<not> nullish p \<longrightarrow>
            (\<exists>vs. extract_fn schema p = Inr vs \<and>
               length vs = length (columnNames (columns schema)) \<and>
               list_all2 (\<lambda>key v. property p key = JUndefined \<longrightarrow> v = JNull)
                 (payload_reads eventType) vs)) \<and>
         (\<exists>vs. extract_fn schema (or_empty payload) = Inr vs \<and>
               length vs = length (columnNames (columns schema))) \<and>
         extract_fn schema (or_empty JUndefined)
           = Inr (replicate (length (columnNames (columns schema))) JNull)"
proof -
  have len: "length (payload_reads eventType) = length (columnNames (columns schema))"
    using reads_registry assms by (force simp: list_all_iff)
  have main: "\<exists>vs. extract_fn schema q = Inr vs \<and>
               length vs = length (columnNames (columns schema)) \<and>
               list_all2 (\<lambda>key v. property q key = JUndefined \<longrightarrow> v = JNull)
                 (payload_reads eventType) vs" if "\<not> nullish q" for q
  proof -
    from extract_registry assms that obtain vs where
      vs: "extract_fn schema q = Inr vs"
          "list_all2 (\<lambda>key v. property q key = JUndefined \<longrightarrow> v = JNull) (payload_reads eventType) vs"
      by (fastforce simp: list_all_iff)
    from vs(2) have "length vs = length (payload_reads eventType)"
      by (simp add: list_all2_lengthD)
    with vs len show ?thesis by simp
  qed
  have absent: "extract_fn schema (or_empty JUndefined)
           = Inr (replicate (length (columnNames (columns schema))) JNull)"
  proof -
    from main [OF or_empty_not_nullish, of JUndefined] obtain vs where
      vs: "extract_fn schema (or_empty JUndefined) = Inr vs"
          "length vs = length (columnNames (columns schema))"
          "list_all2 (\<lambda>key v. property (or_empty JUndefined) key = JUndefined \<longrightarrow> v = JNull)
             (payload_reads eventType) vs"
      by blast
    have "property (or_empty JUndefined) key = JUndefined" for key
      by (simp add: or_empty_def truthy_def property_def)
    with vs(3) have "\<forall>v \<in> set vs. v = JNull"
      by (auto simp: list_all2_conv_all_nth in_set_conv_nth)
    then have "vs = replicate (length vs) JNull"
      by (simp add: replicate_length_same)
    with vs(1,2) show ?thesis by simp
  qed
  show ?thesis
    using main [of p] main [OF or_empty_not_nullish, of payload] absent by blast
qed

theorem extract_total_witness:
  "(''WatchEvent'', watch_schema) \<in> set EVENT_SCHEMAS \<and> \<not> nullish (JObj [(''other'', JNum ''1'')]) \<and>
   (\<exists>vs. extract_fn watch_schema (JObj [(''other'', JNum ''1'')]) = Inr vs \<and>
      length vs = length (columnNames (columns watch_schema)) \<and>
      list_all2 (\<lambda>key v. property (JObj [(''other'', JNum ''1'')]) key = JUndefined \<longrightarrow> v = JNull)
        (payload_reads ''WatchEvent'') vs) \<and>
   extract_fn watch_schema (or_empty JUndefined)
     = Inr (replicate (length (columnNames (columns watch_schema))) JNull)"
  using extract_total [OF watch_schema_registered, of "JObj [(''other'', JNum ''1'')]"]
    watch_schema_registered
  by (simp add: nullish_def)


subsection \<open>The other column\<close>

lemma KNOWN_simps [simp]:
  "''__proto__'' \<notin> set KNOWN_EVENT_KEYS" "''extra'' \<notin> set KNOWN_EVENT_KEYS"
  "''id'' \<in> set KNOWN_EVENT_KEYS" "''type'' \<in> set KNOWN_EVENT_KEYS"
  "''created_at'' \<in> set KNOWN_EVENT_KEYS" "''public'' \<in> set KNOWN_EVENT_KEYS"
  "''actor'' \<in> set KNOWN_EVENT_KEYS" "''repo'' \<in> set KNOWN_EVENT_KEYS"
  "''org'' \<in> set KNOWN_EVENT_KEYS" "''payload'' \<in> set KNOWN_EVENT_KEYS"
  by (simp_all add: KNOWN_EVENT_KEYS_def)

lemma otherFields_proto_event: "otherFields proto_event = []"
  by (simp add: otherFields_def proto_event_def Object_keys_def assign_def)

lemma assign_keeps:
  "(k, v) \<in> set own \<Longrightarrow> k' \<noteq> k \<or> v' = v \<Longrightarrow> (k, v) \<in> set (assign own k' v')"
  by (auto simp: assign_def intro!: image_eqI [of _ _ "(k, v)"])

lemma assign_adds: "k \<noteq> ''__proto__'' \<Longrightarrow> (k, v) \<in> set (assign own k v)"
proof (cases "k \<in> set (map fst own)")
  case True
  assume p: "k \<noteq> ''__proto__''"
  from True obtain b where "(k, b) \<in> set own" by auto
  then have "(k, v) \<in> (\<lambda>(k', v'). if k' = k then (k', v) else (k', v')) ` set own"
    by (intro image_eqI [of _ _ "(k, b)"]) simp_all
  then show ?thesis using True p by (simp add: assign_def)
next
  case False
  assume "k \<noteq> ''__proto__''"
  then show ?thesis using False by (simp add: assign_def)
qed

lemma otherFields_fold:
  assumes "k \<notin> set KNOWN_EVENT_KEYS" "k \<noteq> ''__proto__''"
  shows "(k, property event k) \<in> set own \<or> k \<in> set keys \<Longrightarrow>
     (k, property event k) \<in> set (foldl (\<lambda>own key. if key \<notin> set KNOWN_EVENT_KEYS
          then assign own key (property event key) else own) own keys)"
proof (induction keys arbitrary: own)
  case Nil
  then show ?case by simp
next
  case (Cons key keys)
  let ?own = "if key \<notin> set KNOWN_EVENT_KEYS then assign own key (property event key) else own"
  have "(k, property event k) \<in> set ?own \<or> k \<in> set keys"
  proof (cases "key = k")
    case True
    then show ?thesis using assms by (simp add: assign_adds)
  next
    case False
    then show ?thesis using Cons.prems by (auto simp: assign_keeps)
  qed
  from Cons.IH [OF this] show ?case by simp
qed

lemma other_captures:
  assumes "key \<in> set (Object_keys event)" "key \<notin> set KNOWN_EVENT_KEYS" "key \<noteq> ''__proto__''"
  shows "(key, property event key) \<in> set (otherFields event)"
  unfolding otherFields_def using otherFields_fold [OF assms(2,3), of event "[]" "Object_keys event"] assms(1)
  by simp

lemma commonValues_other:
  assumes "commonValues event = Inr vs"
  shows "length vs = 18"
    and "vs ! 17 = (if otherFields event = [] then JNull else JStr (serialize (JObj (otherFields event))))"
  using assms
  by (auto simp: commonValues_def Let_def JSON_stringify_def split: sum.splits)

lemma otherFields_known_only:
  assumes "set (Object_keys event) \<subseteq> set KNOWN_EVENT_KEYS"
  shows "otherFields event = []"
proof -
  have "set keys \<subseteq> set KNOWN_EVENT_KEYS \<Longrightarrow>
        foldl (\<lambda>own key. if key \<notin> set KNOWN_EVENT_KEYS
          then assign own key (property event key) else own) own keys = own" for keys own
    by (induction keys arbitrary: own) auto
  from this [OF assms] show ?thesis by (simp add: otherFields_def)
qed

lemma property_without_key:
  "k \<noteq> key \<Longrightarrow> property (without_key key event) k = property event k"
proof (cases event)
  case (JObj kvs)
  assume "k \<noteq> key"
  then have "map_of (filter (\<lambda>(k, v). k \<noteq> key) kvs) k = map_of kvs k"
    by (induction kvs) auto
  then show ?thesis using JObj by (simp add: property_def without_key_def)
qed (simp_all add: without_key_def)

lemma commonValues_without_key:
  assumes "key \<notin> set KNOWN_EVENT_KEYS"
  shows "map_sum id (take 17) (commonValues (without_key key event))
           = map_sum id (take 17) (commonValues event)"
proof -
  have k: "key \<noteq> ''id''" "key \<noteq> ''created_at''" "key \<noteq> ''public''" "key \<noteq> ''actor''"
    "key \<noteq> ''repo''" "key \<noteq> ''org''"
    using assms by (auto simp: KNOWN_EVENT_KEYS_def)
  have p: "property (without_key key event) ''id'' = property event ''id''"
    "property (without_key key event) ''created_at'' = property event ''created_at''"
    "property (without_key key event) ''public'' = property event ''public''"
    "property (without_key key event) ''actor'' = property event ''actor''"
    "property (without_key key event) ''repo'' = property event ''repo''"
    "property (without_key key event) ''org'' = property event ''org''"
    using k by (simp_all add: property_without_key)
  show ?thesis
    unfolding commonValues_def Let_def p by (simp split: sum.splits)
qed


lemma sublist_wrap: "sublist x y \<Longrightarrow> sublist x (a @ y @ b)"
proof -
  assume "sublist x y"
  then obtain ps ss where "y = ps @ x @ ss" by (auto simp: sublist_def)
  then have "a @ y @ b = (a @ ps) @ x @ (ss @ b)" by simp
  then show ?thesis unfolding sublist_def by blast
qed

lemma sublist_join: "x \<in> set xs \<Longrightarrow> sublist x (join sep xs)"
proof (induction sep xs rule: join.induct)
  case (1 sep)
  then show ?case by simp
next
  case (2 sep l)
  then show ?case by simp
next
  case (3 sep l l' ls)
  show ?case
  proof (cases "x = l")
    case True
    have "sublist l ([] @ l @ (sep @ join sep (l' # ls)))" by (rule sublist_wrap) simp
    then show ?thesis using True by simp
  next
    case False
    then have "sublist x (join sep (l' # ls))" using 3 by simp
    then have "sublist x ((l @ sep) @ join sep (l' # ls) @ [])" by (rule sublist_wrap)
    then show ?thesis by simp
  qed
qed

lemma serialize_properties_mem:
  "(k, v) \<in> set kvs \<Longrightarrow> v \<noteq> JUndefined \<Longrightarrow>
   quote k @ '':'' @ serialize v \<in> set (serialize_properties kvs)"
  by (induction kvs) auto

lemma serialize_object_holds:
  assumes "(k, v) \<in> set kvs" "v \<noteq> JUndefined"
  shows "sublist (quote k @ '':'' @ serialize v) (serialize (JObj kvs))"
proof -
  have "sublist (quote k @ '':'' @ serialize v) (join '','' (serialize_properties kvs))"
    by (rule sublist_join) (rule serialize_properties_mem [OF assms])
  then have "sublist (quote k @ '':'' @ serialize v)
               (''{'' @ join '','' (serialize_properties kvs) @ ''}'')"
    by (rule sublist_wrap)
  then show ?thesis by simp
qed

lemma other_column_captures:
  assumes "commonValues event = Inr vs" "key \<in> set (Object_keys event)"
    "key \<notin> set KNOWN_EVENT_KEYS" "key \<noteq> ''__proto__''" "property event key \<noteq> JUndefined"
  shows "\<exists>text. vs ! 17 = JStr text \<and>
           sublist (quote key @ '':'' @ serialize (property event key)) text"
proof -
  have m: "(key, property event key) \<in> set (otherFields event)"
    by (rule other_captures [OF assms(2,3,4)])
  then have "otherFields event \<noteq> []" by auto
  then have "vs ! 17 = JStr (serialize (JObj (otherFields event)))"
    using commonValues_other(2) [OF assms(1)] by simp
  then show ?thesis
    using serialize_object_holds [OF m assms(5)] by blast
qed

lemma other_column_null:
  assumes "commonValues event = Inr vs" "set (Object_keys event) \<subseteq> set KNOWN_EVENT_KEYS"
  shows "vs ! 17 = JNull"
  using commonValues_other(2) [OF assms(1)] otherFields_known_only [OF assms(2)] by simp

text \<open>
  The other column holds every extra top-level key but one: for a key outside the
  recognized set and other than \<^verbatim>\<open>__proto__\<close>, the serialized mapping holds the key with
  its value (\<open>other_column_captures\<close>), the other common values do not depend on it
  (\<open>commonValues_without_key\<close>; the extracted values read \<^verbatim>\<open>payload\<close> only), and without
  extra keys the column is \<^verbatim>\<open>null\<close> (\<open>other_column_null\<close>).

  C8, at the record \<^verbatim>\<open>{"id":"3","type":"WatchEvent","created_at":"v","__proto__":{"x":1}}\<close>:
  the key \<^verbatim>\<open>__proto__\<close> is outside the recognized set, yet its value is in no column, and
  the other column is \<^verbatim>\<open>null\<close>. The assignment \<^verbatim>\<open>otherFields["__proto__"] = ...\<close> sets the
  prototype of \<open>otherFields\<close> and adds no property to it.
\<close>

theorem proto_key_not_captured:
  "commonValues proto_event =
     Inr [JStr ''3'', JStr ''v'', JNum ''1'', JNull, JNull, JNull, JNull, JNull, JNull, JNull,
          JNull, JNull, JNull, JNull, JNull, JNull, JNull, JNull]"
  by (simp add: commonValues_def otherFields_proto_event)
     (simp add: proto_event_def property_def or_empty_def truthy_def coalesce_def nullish_def)

subsection \<open>Lines that are skipped\<close>

lemma processLine_decompose:
  "processLine parse stmts line st =
     (case line_row parse line of
        Inl e \<Rightarrow> Inl (e, db st)
      | Inr None \<Rightarrow> Inr st
      | Inr (Some kr) \<Rightarrow> push_row stmts kr st)"
proof (cases "trim line = [] \<or> parse line = None")
  case True
  then show ?thesis by (auto simp: processLine_def line_row_def)
next
  case False
  then obtain event where ev: "trim line \<noteq> []" "parse line = Some event" by auto
  show ?thesis
  proof (cases "nullish event")
    case True
    then show ?thesis using ev by (simp add: processLine_def line_row_def)
  next
    case nn: False
    show ?thesis
    proof (cases "ToString (property event ''type'')")
      case (Inl e)
      then show ?thesis using ev nn by (simp add: processLine_def line_row_def)
    next
      case (Inr key)
      show ?thesis
      proof (cases "map_of EVENT_SCHEMAS key")
        case None
        then show ?thesis using ev nn Inr by (simp add: processLine_def line_row_def)
      next
        case (Some schema)
        show ?thesis
        proof (cases "commonValues event")
          case (Inl e)
          then show ?thesis using ev nn Inr Some by (simp add: processLine_def line_row_def)
        next
          case cv: (Inr common)
          show ?thesis
          proof (cases "extract_fn schema (or_empty (property event ''payload''))")
            case (Inl e)
            then show ?thesis using ev nn Inr Some cv by (simp add: processLine_def line_row_def)
          next
            case ex: (Inr extra)
            have l: "line_row parse line = Inr (Some (key, \<lparr> row_type = property event ''type'',
                                               row_values = common @ extra \<rparr>))"
              using ev nn Inr Some cv ex by (simp add: line_row_def)
            show ?thesis
              unfolding l using ev nn Inr Some cv ex
              by (simp add: processLine_def push_row_def Let_def)
          qed
        qed
      qed
    qed
  qed
qed

lemma processLine_undecodable: "parse line = None \<Longrightarrow> processLine parse stmts line st = Inr st"
  by (simp add: processLine_def)

lemma processLine_blank: "trim line = [] \<Longrightarrow> processLine parse stmts line st = Inr st"
  by (simp add: processLine_def)

lemma loadEvents_lines:
  "loadEvents parse chunks d =
     (case prepareInserts d of
        Inl e \<Rightarrow> Inl (e, d)
      | Inr stmts \<Rightarrow>
          (case processLines (processLine parse stmts) (split_char (CHR 0x0A) (concat chunks))
                  (initial_loader d) of
             Inl e \<Rightarrow> Inl e
           | Inr st \<Rightarrow>
               if length (batch st) > 0
               then (case flush stmts (batch st) (db st) of
                       Inl e \<Rightarrow> Inl (e, db st)
                     | Inr d' \<Rightarrow> Inr (st\<lparr> db := d', committed := committed st @ [batch st] \<rparr>))
               else Inr st))"
  unfolding loadEvents_def initial_loader_def
  by (simp add: readStream_whole split: sum.splits)

lemma processLines_skip:
  assumes "P line = Inr"
  shows "processLines P (before @ line # after) st = processLines P (before @ after) st"
  using assms by (simp add: processLines_append split: sum.splits)

text \<open>
  C7, amended. A line that fails to decode, blank or not, is skipped and nothing
  records it: \<open>processLine\<close> returns with every variable and the store as they were, so no
  counter counts the line. The run is not aborted and the other lines are processed as
  if the line were not there: the run over the lines with the line among them ends as
  the run over the lines without it.
\<close>

theorem undecodable_line_skipped:
  assumes "parse line = None"
  shows "processLine parse stmts line st = Inr st \<and>
         (split_char (CHR 0x0A) (concat chunks) = before @ line # after \<and>
          split_char (CHR 0x0A) (concat chunks') = before @ after \<longrightarrow>
          loadEvents parse chunks d = loadEvents parse chunks' d)"
proof (intro conjI impI)
  show "processLine parse stmts line st = Inr st"
    using assms by (rule processLine_undecodable)
next
  assume a: "split_char (CHR 0x0A) (concat chunks) = before @ line # after \<and>
          split_char (CHR 0x0A) (concat chunks') = before @ after"
  have "processLine parse stmts line = Inr" for stmts
    using assms by (simp add: fun_eq_iff processLine_undecodable)
  then have k: "processLines (processLine parse stmts) (before @ line # after) s
               = processLines (processLine parse stmts) (before @ after) s" for stmts s
    by (rule processLines_skip)
  from a have e: "split_char (CHR 0x0A) (concat chunks) = before @ line # after"
    "split_char (CHR 0x0A) (concat chunks') = before @ after" by simp_all
  show "loadEvents parse chunks d = loadEvents parse chunks' d"
    unfolding loadEvents_lines e k ..
qed

lemma watch_line_no_lf: "CHR 0x0A \<notin> set watch_line"
  by (simp add: watch_line_def)

lemma sample_parse_oops: "sample_parse ''{oops'' = None"
  by (simp add: sample_parse_def watch_line_def fork_line_def proto_line_def)

lemma oops_not_blank: "trim ''{oops'' \<noteq> []"
  by (simp add: trim_def is_space_def)

theorem undecodable_line_skipped_witness:
  "sample_parse ''{oops'' = None \<and> trim ''{oops'' \<noteq> [] \<and>
   processLine sample_parse archive_statements ''{oops'' (initial_loader fresh_database)
     = Inr (initial_loader fresh_database) \<and>
   split_char (CHR 0x0A) (concat [watch_line @ ''\<newline>{oo'', ''ps\<newline>'' @ watch_line])
     = [watch_line] @ ''{oops'' # [watch_line] \<and>
   split_char (CHR 0x0A) (concat [watch_line @ ''\<newline>'' @ watch_line]) = [watch_line] @ [watch_line] \<and>
   loadEvents sample_parse [watch_line @ ''\<newline>{oo'', ''ps\<newline>'' @ watch_line] fresh_database
     = loadEvents sample_parse [watch_line @ ''\<newline>'' @ watch_line] fresh_database"
proof -
  have s1: "split_char (CHR 0x0A) (concat [watch_line @ ''\<newline>{oo'', ''ps\<newline>'' @ watch_line])
     = [watch_line] @ ''{oops'' # [watch_line]"
    using split_char_sep [of "CHR 0x0A" watch_line "''{oops'' @ CHR 0x0A # watch_line"]
      split_char_sep [of "CHR 0x0A" "''{oops''" watch_line]
    by (simp add: split_char_no_sep watch_line_no_lf)
  have s2: "split_char (CHR 0x0A) (concat [watch_line @ ''\<newline>'' @ watch_line]) = [watch_line] @ [watch_line]"
    using split_char_sep [of "CHR 0x0A" watch_line watch_line]
    by (simp add: split_char_no_sep watch_line_no_lf)
  show ?thesis
    using undecodable_line_skipped [of sample_parse "''{oops''" archive_statements "initial_loader fresh_database"
        "[watch_line @ ''\<newline>{oo'', ''ps\<newline>'' @ watch_line]" "[watch_line]" "[watch_line]"
        "[watch_line @ ''\<newline>'' @ watch_line]" fresh_database]
      s1 s2 sample_parse_oops oops_not_blank
    by simp
qed

text \<open>
  C7 as the spec states it fails: a run over the one line \<^verbatim>\<open>{oops\<close> ends in the state
  loadEvents starts from. The line is skipped, and no count of it exists.
\<close>

theorem undecodable_line_not_counted:
  "loadEvents sample_parse [''{oops\<newline>''] fresh_database = Inr (initial_loader fresh_database)"
proof -
  have s: "split_char (CHR 0x0A) (concat [''{oops\<newline>'']) = [''{oops'', []]"
    by simp
  have b: "trim [] = []" by (simp add: trim_def)
  show ?thesis
    unfolding loadEvents_lines s
    by (simp add: prepareInserts_archive [OF fresh_has_archive_tables]
        processLine_undecodable [of sample_parse, OF sample_parse_oops] processLine_blank [OF b]
        initial_loader_def)
qed

subsection \<open>Batches and counts\<close>

lemma accepted_append: "accepted parse (xs @ ys) = accepted parse xs @ accepted parse ys"
  by (induction xs) (auto split: sum.splits option.splits)

lemma processLines_push_rows:
  "no_throw parse lines \<Longrightarrow>
   processLines (processLine parse stmts) lines st = push_rows stmts (accepted parse lines) st"
proof (induction lines arbitrary: st)
  case Nil
  then show ?case by simp
next
  case (Cons line lines)
  then have nt: "\<not> isl (line_row parse line)" "no_throw parse lines"
    by (simp_all add: no_throw_def)
  show ?case
  proof (cases "line_row parse line")
    case (Inl e)
    then show ?thesis using nt by simp
  next
    case (Inr r)
    show ?thesis
    proof (cases r)
      case None
      then show ?thesis using Inr Cons.IH [OF nt(2)]
        by (simp add: processLine_decompose)
    next
      case (Some kr)
      then show ?thesis using Inr Cons.IH [OF nt(2)]
        by (simp add: processLine_decompose split: sum.splits)
    qed
  qed
qed

lemma processLines_completes_no_throw:
  "processLines (processLine parse stmts) lines st = Inr st' \<Longrightarrow> no_throw parse lines"
proof (induction lines arbitrary: st)
  case Nil
  then show ?case by (simp add: no_throw_def)
next
  case (Cons line lines)
  from Cons.prems obtain st1 where
    s: "processLine parse stmts line st = Inr st1"
       "processLines (processLine parse stmts) lines st1 = Inr st'"
    by (auto split: sum.splits)
  have "\<not> isl (line_row parse line)"
    using s(1) by (auto simp: processLine_decompose split: sum.splits)
  then show ?case using Cons.IH [OF s(2)] by (simp add: no_throw_def)
qed

lemma BATCH_SIZE_pos: "0 < BATCH_SIZE"
  by (simp add: BATCH_SIZE_def)

lemma run_rows_append:
  "run_rows stmts (xs @ ys) d =
     (case run_rows stmts xs d of Inl e \<Rightarrow> Inl e | Inr d' \<Rightarrow> run_rows stmts ys d')"
  by (induction xs arbitrary: d) (auto split: sum.splits option.splits)

lemma run_rows_binds: "run_rows stmts rows d = Inr d' \<Longrightarrow> list_all (binds stmts) rows"
proof (induction rows arbitrary: d)
  case Nil
  then show ?case by simp
next
  case (Cons row rows)
  from Cons.prems obtain key s d1 where
    k: "ToString (row_type row) = Inr key" "stmts key = Some s"
       "run_insert s (row_values row) d = Inr d1" "run_rows stmts rows d1 = Inr d'"
    by (auto split: sum.splits option.splits)
  from k(3) have "case bind_arguments False (row_values row) of
                    Inl e \<Rightarrow> False | Inr vs \<Rightarrow> length vs = parameters s"
    by (auto simp: run_insert_def split: sum.splits if_splits)
  then have "binds stmts row" using k(1,2) by (simp add: binds_def)
  then show ?case using Cons.IH [OF k(4)] by simp
qed

lemma archive_statements_SomeD:
  assumes "archive_statements key = Some s"
  obtains schema where "(key, schema) \<in> set EVENT_SCHEMAS" "s = statement_for schema"
  using assms by (auto simp: archive_statements_def dest: map_of_SomeD)

lemma row_for_same:
  assumes "distinct (map col_name (table_columns t))" "length vs = length (table_columns t)"
  shows "row_for t (map col_name (table_columns t)) vs = vs"
proof (rule nth_equalityI)
  show "length (row_for t (map col_name (table_columns t)) vs) = length vs"
    using assms(2) by (simp add: row_for_def)
next
  fix i assume "i < length (row_for t (map col_name (table_columns t)) vs)"
  then have i: "i < length (table_columns t)" by (simp add: row_for_def)
  have "map_of (zip (map col_name (table_columns t)) vs) (map col_name (table_columns t) ! i)
          = Some (vs ! i)"
    using assms i by (intro map_of_zip_nth) simp_all
  then show "row_for t (map col_name (table_columns t)) vs ! i = vs ! i"
    using i by (simp add: row_for_def)
qed

lemma table_for_columns:
  "map col_name (table_columns (table_for schema)) = created_columns schema"
  by (simp add: table_for_def created_columns_def)

lemma run_insert_archive:
  assumes "has_archive_tables d" "(k, schema) \<in> set EVENT_SCHEMAS"
    "bind_arguments False args = Inr vs" "length vs = parameters (statement_for schema)"
  obtains t where "d (table schema) = Some t"
    and "table_columns t = table_columns (table_for schema)"
    and "run_insert (statement_for schema) args d =
           Inr (if violates t vs then d
                else d(table schema \<mapsto> t\<lparr> table_rows := table_rows t @ [vs] \<rparr>))"
proof -
  from has_archive_tablesD [OF assms(1,2)] obtain t where
    t: "d (table schema) = Some t" "table_columns t = table_columns (table_for schema)" .
  have names: "map col_name (table_columns t) = created_columns schema"
    using t(2) by (simp add: table_for_columns)
  have "distinct (map col_name (table_columns t))"
    using created_columns_distinct [OF assms(2)] names by simp
  moreover have "length vs = length (table_columns t)"
    using assms(4) names by (simp add: statement_for_def) (metis length_map)
  ultimately have r: "row_for t (created_columns schema) vs = vs"
    using row_for_same [of t vs] names by simp
  have "run_insert (statement_for schema) args d =
           Inr (if violates t vs then d
                else d(table schema \<mapsto> t\<lparr> table_rows := table_rows t @ [vs] \<rparr>))"
    using assms(3,4) t(1) r by (simp add: run_insert_def statement_for_def Let_def)
  with t show thesis by (rule that)
qed

lemma has_archive_tables_update:
  assumes "has_archive_tables d" "d name = Some t"
  shows "has_archive_tables (d(name \<mapsto> t\<lparr> table_rows := rows \<rparr>))"
  using assms unfolding has_archive_tables_def
  by (auto split: option.splits)

lemma bindsE:
  assumes "binds stmts row"
  obtains key s vs where "ToString (row_type row) = Inr key" "stmts key = Some s"
    "bind_arguments False (row_values row) = Inr vs" "length vs = parameters s"
proof (cases "ToString (row_type row)")
  case (Inl e)
  then show ?thesis using assms by (simp add: binds_def)
next
  case (Inr key)
  show ?thesis
  proof (cases "stmts key")
    case None
    then show ?thesis using assms Inr by (simp add: binds_def)
  next
    case (Some s)
    show ?thesis
    proof (cases "bind_arguments False (row_values row)")
      case (Inl e)
      then show ?thesis using assms Inr Some by (simp add: binds_def)
    next
      case vs: (Inr vs)
      then have "length vs = parameters s" using assms Inr Some by (simp add: binds_def)
      with Inr Some vs show ?thesis by (rule that)
    qed
  qed
qed

lemma run_row_total:
  assumes "has_archive_tables d" "binds archive_statements row"
  shows "\<exists>d'. run_rows archive_statements [row] d = Inr d' \<and> has_archive_tables d'"
proof -
  from bindsE [OF assms(2)] obtain key s vs where
    b: "ToString (row_type row) = Inr key" "archive_statements key = Some s"
       "bind_arguments False (row_values row) = Inr vs" "length vs = parameters s" .
  from archive_statements_SomeD [OF b(2)] obtain schema where
    s: "(key, schema) \<in> set EVENT_SCHEMAS" "s = statement_for schema" .
  from run_insert_archive [OF assms(1) s(1) b(3) b(4) [unfolded s(2)]] obtain t where
    t: "d (table schema) = Some t"
       "run_insert (statement_for schema) (row_values row) d =
           Inr (if violates t vs then d
                else d(table schema \<mapsto> t\<lparr> table_rows := table_rows t @ [vs] \<rparr>))"
    by blast
  have "has_archive_tables (if violates t vs then d
                else d(table schema \<mapsto> t\<lparr> table_rows := table_rows t @ [vs] \<rparr>))"
    using assms(1) has_archive_tables_update [OF assms(1) t(1)] by simp
  then show ?thesis using b(1,2) s(2) t(2) by simp
qed

lemma run_rows_total:
  "has_archive_tables d \<Longrightarrow> list_all (binds archive_statements) rows \<Longrightarrow>
   \<exists>d'. run_rows archive_statements rows d = Inr d' \<and> has_archive_tables d'"
proof (induction rows arbitrary: d)
  case Nil
  then show ?case by simp
next
  case (Cons row rows)
  from run_row_total [OF Cons.prems(1), of row] Cons.prems(2) obtain d1 where
    d1: "run_rows archive_statements [row] d = Inr d1" "has_archive_tables d1" by auto
  from Cons.IH [OF d1(2)] Cons.prems(2) obtain d' where
    d': "run_rows archive_statements rows d1 = Inr d'" "has_archive_tables d'" by auto
  have "run_rows archive_statements (row # rows) d = Inr d'"
    using run_rows_append [of archive_statements "[row]" rows d] d1(1) d'(1) by simp
  then show ?case using d'(2) by blast
qed

lemma push_row_step:
  assumes "has_archive_tables (db st)" "length (batch st) < BATCH_SIZE"
    "list_all (binds archive_statements) (batch st)" "binds archive_statements (snd kr)"
    "counts_are st c"
  shows "\<exists>st1 new1. push_row archive_statements kr st = Inr st1 \<and>
           has_archive_tables (db st1) \<and> length (batch st1) < BATCH_SIZE \<and>
           list_all (binds archive_statements) (batch st1) \<and>
           committed st1 = committed st @ new1 \<and>
           list_all (\<lambda>b. length b = BATCH_SIZE) new1 \<and>
           concat new1 @ batch st1 = batch st @ [snd kr] \<and>
           run_rows archive_statements (concat new1) (db st) = Inr (db st1) \<and>
           count st1 = count st + 1 \<and>
           counts_are st1 (c(fst kr := c (fst kr) + 1))"
proof -
  let ?st1 = "st\<lparr> batch := batch st @ [snd kr],
                    typeCounts := (typeCounts st)
                      (fst kr \<mapsto> (case typeCounts st (fst kr) of None \<Rightarrow> 0 | Some n \<Rightarrow> n) + 1),
                    count := count st + 1 \<rparr>"
  have tc: "(case typeCounts st (fst kr) of None \<Rightarrow> 0 | Some n \<Rightarrow> n) = c (fst kr)"
    using assms(5) by (simp add: counts_are_def)
  have c1: "counts_are ?st1 (c(fst kr := c (fst kr) + 1))"
    using assms(5) unfolding counts_are_def tc by simp
  show ?thesis
  proof (cases "BATCH_SIZE \<le> length (batch st) + 1")
    case False
    then have "push_row archive_statements kr st = Inr ?st1"
      by (simp add: push_row_def Let_def)
    moreover have "length (batch ?st1) < BATCH_SIZE" using False by simp
    ultimately show ?thesis
      using assms(1,3,4) c1
      by (intro exI [of _ ?st1] exI [of _ "[]"]) simp
  next
    case True
    then have len: "length (batch st @ [snd kr]) = BATCH_SIZE" using assms(2) by simp
    have "list_all (binds archive_statements) (batch st @ [snd kr])"
      using assms(3,4) by simp
    from run_rows_total [OF assms(1) this] obtain d' where
      d': "run_rows archive_statements (batch st @ [snd kr]) (db st) = Inr d'"
          "has_archive_tables d'" by blast
    let ?st2 = "?st1\<lparr> db := d', committed := committed ?st1 @ [batch ?st1], batch := [] \<rparr>"
    have "push_row archive_statements kr st = Inr ?st2"
      using True d'(1) by (simp add: push_row_def Let_def flush_def)
    moreover have "counts_are ?st2 (c(fst kr := c (fst kr) + 1))"
      using c1 by (simp add: counts_are_def)
    ultimately show ?thesis
      using d' len BATCH_SIZE_pos
      by (intro exI [of _ ?st2] exI [of _ "[batch st @ [snd kr]]"]) simp
  qed
qed

lemma tally_Cons: "tally key (kr # krs) = (if fst kr = key then 1 else 0) + tally key krs"
  by (simp add: tally_def)

lemma push_rows_spec:
  assumes "has_archive_tables (db st)" "length (batch st) < BATCH_SIZE"
    "list_all (binds archive_statements) (batch st)"
    "list_all (binds archive_statements) (map snd krs)"
    "counts_are st c"
  shows "\<exists>st' new. push_rows archive_statements krs st = Inr st' \<and>
           has_archive_tables (db st') \<and> length (batch st') < BATCH_SIZE \<and>
           list_all (binds archive_statements) (batch st') \<and>
           committed st' = committed st @ new \<and>
           list_all (\<lambda>b. length b = BATCH_SIZE) new \<and>
           concat new @ batch st' = batch st @ map snd krs \<and>
           run_rows archive_statements (concat new) (db st) = Inr (db st') \<and>
           count st' = count st + length krs \<and>
           counts_are st' (\<lambda>key. c key + tally key krs)"
  using assms
proof (induction krs arbitrary: st c)
  case Nil
  then show ?case
    by (intro exI [of _ st] exI [of _ "[]"]) (simp add: tally_def)
next
  case (Cons kr krs)
  from push_row_step [OF Cons.prems(1,2,3) _ Cons.prems(5), of kr] Cons.prems(4)
  obtain st1 new1 where
    s1: "push_row archive_statements kr st = Inr st1"
        "has_archive_tables (db st1)" "length (batch st1) < BATCH_SIZE"
        "list_all (binds archive_statements) (batch st1)"
        "committed st1 = committed st @ new1"
        "list_all (\<lambda>b. length b = BATCH_SIZE) new1"
        "concat new1 @ batch st1 = batch st @ [snd kr]"
        "run_rows archive_statements (concat new1) (db st) = Inr (db st1)"
        "count st1 = count st + 1"
        "counts_are st1 (c(fst kr := c (fst kr) + 1))"
    by auto
  from Cons.IH [OF s1(2,3,4) _ s1(10)] Cons.prems(4)
  obtain st' new2 where
    s2: "push_rows archive_statements krs st1 = Inr st'"
        "has_archive_tables (db st')" "length (batch st') < BATCH_SIZE"
        "list_all (binds archive_statements) (batch st')"
        "committed st' = committed st1 @ new2"
        "list_all (\<lambda>b. length b = BATCH_SIZE) new2"
        "concat new2 @ batch st' = batch st1 @ map snd krs"
        "run_rows archive_statements (concat new2) (db st1) = Inr (db st')"
        "count st' = count st1 + length krs"
        "counts_are st' (\<lambda>key. (c(fst kr := c (fst kr) + 1)) key + tally key krs)"
    by auto
  have a: "push_rows archive_statements (kr # krs) st = Inr st'"
    using s1(1) s2(1) by simp
  have b: "concat (new1 @ new2) @ batch st' = batch st @ map snd (kr # krs)"
    using s1(7) s2(7) by (metis append.assoc append_Cons append_Nil concat_append list.simps(9))
  have r: "run_rows archive_statements (concat (new1 @ new2)) (db st) = Inr (db st')"
    using s1(8) s2(8) by (simp add: run_rows_append)
  have t: "counts_are st' (\<lambda>key. c key + tally key (kr # krs))"
    using s2(10) by (simp add: counts_are_def tally_Cons)
  show ?case
    using a b r t s1(5,6,9) s2(2,3,4,5,6,9)
    by (intro exI [of _ st'] exI [of _ "new1 @ new2"]) simp
qed

lemma batches_unique:
  assumes "0 < n"
  shows "concat bs = xs \<Longrightarrow> list_all (\<lambda>b. length b = n) (butlast bs) \<Longrightarrow>
         (bs \<noteq> [] \<longrightarrow> 0 < length (last bs) \<and> length (last bs) \<le> n) \<Longrightarrow> bs = batches n xs"
proof (induction bs arbitrary: xs)
  case Nil
  then show ?case by (simp add: batches.simps)
next
  case (Cons b bs)
  show ?case
  proof (cases "bs = []")
    case True
    then have "xs = b" "0 < length b" "length b \<le> n" using Cons.prems by auto
    then show ?thesis using True assms
      by (subst batches.simps) (simp add: batches.simps)
  next
    case False
    then have l: "length b = n" using Cons.prems(2) by simp
    have x: "xs = b @ concat bs" using Cons.prems(1) by simp
    have "bs = batches n (concat bs)"
      using Cons.prems False by (intro Cons.IH) simp_all
    moreover have "xs \<noteq> []" using x l assms by auto
    ultimately show ?thesis using l x assms
      by (subst batches.simps) simp
  qed
qed

lemma length_batches: "0 < n \<Longrightarrow> n < length xs \<Longrightarrow> 2 \<le> length (batches n xs)"
proof -
  assume n: "0 < n" "n < length xs"
  then have "xs \<noteq> []" "drop n xs \<noteq> []" by auto
  then show ?thesis using n
    by (subst batches.simps, subst batches.simps) simp
qed

lemma counts_are_initial: "counts_are (initial_loader d) (\<lambda>key. 0)"
  by (simp add: counts_are_def initial_loader_def)

lemma loadEvents_spec:
  assumes "has_archive_tables d"
    "no_throw parse (split_char (CHR 0x0A) (concat chunks))"
    "list_all (binds archive_statements) (map snd (accepted parse (split_char (CHR 0x0A) (concat chunks))))"
  shows "\<exists>st. loadEvents parse chunks d = Inr st \<and> has_archive_tables (db st) \<and>
           count st = length (accepted parse (split_char (CHR 0x0A) (concat chunks))) \<and>
           committed st = batches BATCH_SIZE (map snd (accepted parse (split_char (CHR 0x0A) (concat chunks)))) \<and>
           run_rows archive_statements (map snd (accepted parse (split_char (CHR 0x0A) (concat chunks)))) d
             = Inr (db st) \<and>
           counts_are st (\<lambda>key. tally key (accepted parse (split_char (CHR 0x0A) (concat chunks))))"
proof -
  let ?lines = "split_char (CHR 0x0A) (concat chunks)"
  let ?krs = "accepted parse ?lines"
  let ?rows = "map snd ?krs"
  have i: "has_archive_tables (db (initial_loader d))" "length (batch (initial_loader d)) < BATCH_SIZE"
    "list_all (binds archive_statements) (batch (initial_loader d))"
    using assms(1) BATCH_SIZE_pos by (simp_all add: initial_loader_def)
  from push_rows_spec [OF i assms(3) counts_are_initial] obtain st' new where
    s: "push_rows archive_statements ?krs (initial_loader d) = Inr st'"
       "has_archive_tables (db st')" "length (batch st') < BATCH_SIZE"
       "list_all (binds archive_statements) (batch st')"
       "committed st' = committed (initial_loader d) @ new"
       "list_all (\<lambda>b. length b = BATCH_SIZE) new"
       "concat new @ batch st' = batch (initial_loader d) @ ?rows"
       "run_rows archive_statements (concat new) (db (initial_loader d)) = Inr (db st')"
       "count st' = count (initial_loader d) + length ?krs"
       "counts_are st' (\<lambda>key. 0 + tally key ?krs)"
    by blast
  have c: "committed st' = new" "concat new @ batch st' = ?rows" "count st' = length ?krs"
    "run_rows archive_statements (concat new) d = Inr (db st')"
    "counts_are st' (\<lambda>key. tally key ?krs)"
    using s(5,7,8,9,10) by (simp_all add: initial_loader_def)
  have p: "processLines (processLine parse archive_statements) ?lines (initial_loader d) = Inr st'"
    using processLines_push_rows [OF assms(2)] s(1) by simp
  show ?thesis
  proof (cases "batch st' = []")
    case True
    have l: "loadEvents parse chunks d = Inr st'"
      unfolding loadEvents_lines using True p
      by (simp add: prepareInserts_archive [OF assms(1)])
    have "list_all (\<lambda>b. length b = BATCH_SIZE) (butlast new)"
      using s(6) by (auto simp: list_all_iff dest: in_set_butlastD)
    moreover have "new \<noteq> [] \<longrightarrow> 0 < length (last new) \<and> length (last new) \<le> BATCH_SIZE"
      using s(6) BATCH_SIZE_pos by (auto simp: list_all_iff)
    ultimately have "new = batches BATCH_SIZE ?rows"
      using c(2) True by (intro batches_unique [OF BATCH_SIZE_pos]) simp_all
    then show ?thesis
      using l s(2) c True by (intro exI [of _ st']) simp
  next
    case False
    from run_rows_total [OF s(2,4)] obtain d' where
      d': "run_rows archive_statements (batch st') (db st') = Inr d'" "has_archive_tables d'"
      by blast
    let ?st = "st'\<lparr> db := d', committed := committed st' @ [batch st'] \<rparr>"
    have l: "loadEvents parse chunks d = Inr ?st"
      unfolding loadEvents_lines using False p d'(1)
      by (simp add: prepareInserts_archive [OF assms(1)] flush_def)
    have "new @ [batch st'] = batches BATCH_SIZE ?rows"
      using c(2) s(3,6) False by (intro batches_unique [OF BATCH_SIZE_pos]) simp_all
    moreover have "run_rows archive_statements ?rows d = Inr d'"
      using c(2,4) d'(1) run_rows_append [of archive_statements "concat new" "batch st'" d]
      by simp
    moreover have "counts_are ?st (\<lambda>key. tally key ?krs)"
      using c(5) by (simp add: counts_are_def)
    ultimately show ?thesis
      using l d'(2) c(1,3) by (intro exI [of _ ?st]) simp
  qed
qed

lemma push_row_counts:
  assumes "push_row stmts kr st = Inr st1" "counts_are st c"
  shows "count st1 = count st + 1" "counts_are st1 (c(fst kr := c (fst kr) + 1))"
proof -
  have tc: "(case typeCounts st (fst kr) of None \<Rightarrow> 0 | Some n \<Rightarrow> n) = c (fst kr)"
    using assms(2) by (simp add: counts_are_def)
  from assms(1) have
    "count st1 = count st + 1 \<and>
     typeCounts st1 = (typeCounts st)(fst kr \<mapsto> c (fst kr) + 1)"
    unfolding push_row_def Let_def tc
    by (auto split: if_splits sum.splits)
  then show "count st1 = count st + 1" "counts_are st1 (c(fst kr := c (fst kr) + 1))"
    using assms(2) by (simp_all add: counts_are_def)
qed

lemma push_rows_counts:
  "push_rows stmts krs st = Inr st' \<Longrightarrow> counts_are st c \<Longrightarrow>
   count st' = count st + length krs \<and> counts_are st' (\<lambda>key. c key + tally key krs)"
proof (induction krs arbitrary: st c)
  case Nil
  then show ?case by (simp add: tally_def)
next
  case (Cons kr krs)
  from Cons.prems(1) obtain st1 where
    s: "push_row stmts kr st = Inr st1" "push_rows stmts krs st1 = Inr st'"
    by (auto split: sum.splits)
  from push_row_counts [OF s(1) Cons.prems(2)] have
    c1: "count st1 = count st + 1" "counts_are st1 (c(fst kr := c (fst kr) + 1))" .
  from Cons.IH [OF s(2) c1(2)] have
    "count st' = count st1 + length krs"
    "counts_are st' (\<lambda>key. (c(fst kr := c (fst kr) + 1)) key + tally key krs)" by simp_all
  then show ?case using c1(1) by (simp add: counts_are_def tally_Cons)
qed

lemma loadEvents_counts:
  assumes "loadEvents parse chunks d = Inr st"
  shows "no_throw parse (split_char (CHR 0x0A) (concat chunks))"
    and "count st = length (accepted parse (split_char (CHR 0x0A) (concat chunks)))"
    and "counts_are st (\<lambda>key. tally key (accepted parse (split_char (CHR 0x0A) (concat chunks))))"
proof -
  let ?lines = "split_char (CHR 0x0A) (concat chunks)"
  from assms obtain stmts st' where
    p: "processLines (processLine parse stmts) ?lines (initial_loader d) = Inr st'"
    and f: "count st = count st'" "typeCounts st = typeCounts st'"
    unfolding loadEvents_lines by (auto split: sum.splits if_splits)
  show nt: "no_throw parse ?lines"
    by (rule processLines_completes_no_throw [OF p])
  have "push_rows stmts (accepted parse ?lines) (initial_loader d) = Inr st'"
    using processLines_push_rows [OF nt] p by simp
  from push_rows_counts [OF this counts_are_initial] have
    "count st' = length (accepted parse ?lines)"
    "counts_are st' (\<lambda>key. tally key (accepted parse ?lines))"
    by (simp_all add: initial_loader_def)
  then show "count st = length (accepted parse ?lines)"
    and "counts_are st (\<lambda>key. tally key (accepted parse ?lines))"
    using f by (simp_all add: counts_are_def)
qed

lemma line_row_counted:
  assumes "\<not> isl (line_row parse line)"
  shows "case line_row parse line of
           Inr (Some kr) \<Rightarrow> counted parse line \<and> (\<forall>key. counted_as parse key line = (key = fst kr))
         | _ \<Rightarrow> \<not> counted parse line \<and> (\<forall>key. \<not> counted_as parse key line)"
proof (cases "trim line = [] \<or> parse line = None")
  case True
  then show ?thesis by (auto simp: line_row_def counted_def counted_as_def)
next
  case False
  then obtain event where ev: "trim line \<noteq> []" "parse line = Some event" by auto
  show ?thesis
  proof (cases "nullish event")
    case True
    then show ?thesis using ev assms by (simp add: line_row_def)
  next
    case nn: False
    show ?thesis
    proof (cases "ToString (property event ''type'')")
      case (Inl e)
      then show ?thesis using ev nn assms by (simp add: line_row_def)
    next
      case (Inr key)
      show ?thesis
      proof (cases "map_of EVENT_SCHEMAS key")
        case None
        then show ?thesis using ev nn Inr assms
          by (auto simp: line_row_def counted_def counted_as_def split: if_splits)
      next
        case (Some schema)
        then show ?thesis using ev nn Inr assms
          by (auto simp: line_row_def counted_def counted_as_def split: sum.splits)
      qed
    qed
  qed
qed

lemma accepted_counted:
  "no_throw parse lines \<Longrightarrow>
   length (accepted parse lines) = length (filter (counted parse) lines) \<and>
   tally key (accepted parse lines) = length (filter (counted_as parse key) lines)"
proof (induction lines)
  case Nil
  then show ?case by (simp add: tally_def)
next
  case (Cons line lines)
  then have nt: "\<not> isl (line_row parse line)" "no_throw parse lines"
    by (simp_all add: no_throw_def)
  note ih = Cons.IH [OF nt(2)]
  show ?case
  proof (cases "line_row parse line")
    case (Inl e)
    then show ?thesis using nt(1) by simp
  next
    case (Inr r)
    show ?thesis
    proof (cases r)
      case None
      then have "\<not> counted parse line" "\<not> counted_as parse key line"
        using line_row_counted [OF nt(1)] Inr by simp_all
      then show ?thesis using ih Inr None by simp
    next
      case (Some kr)
      then have "counted parse line" "counted_as parse key line = (key = fst kr)"
        using line_row_counted [OF nt(1)] Inr by simp_all
      then show ?thesis using ih Inr Some by (simp add: tally_Cons) 
    qed
  qed
qed

lemma concat_batches: "0 < n \<Longrightarrow> concat (batches n xs) = xs"
proof (induction n xs rule: batches.induct)
  case (1 n xs)
  then show ?case by (subst batches.simps) simp
qed

lemma batches_lengths:
  "0 < n \<Longrightarrow> list_all (\<lambda>b. 0 < length b \<and> length b \<le> n) (batches n xs)"
proof (induction n xs rule: batches.induct)
  case (1 n xs)
  then show ?case by (subst batches.simps) (auto simp: min_def)
qed

lemma batches_full:
  "0 < n \<Longrightarrow> list_all (\<lambda>b. length b = n) (butlast (batches n xs))"
proof (induction n xs rule: batches.induct)
  case (1 n xs)
  show ?case
  proof (cases "xs = [] \<or> drop n xs = []")
    case True
    then show ?thesis using 1
      by (subst batches.simps) (auto simp: batches.simps [of n "[]"] batches.simps [of n "drop n xs"])
  next
    case False
    then have "batches n (drop n xs) \<noteq> []"
      using 1(2) by (subst batches.simps) simp
    moreover have "length (take n xs) = n" using False by simp
    ultimately show ?thesis using 1 False
      by (subst batches.simps) simp
  qed
qed

lemma counts_general:
  assumes "loadEvents parse chunks d = Inr st"
  shows "count st = length (filter (counted parse) (split_char (CHR 0x0A) (concat chunks)))"
    and "typeCounts st key =
           (if length (filter (counted_as parse key) (split_char (CHR 0x0A) (concat chunks))) = 0 then None
            else Some (length (filter (counted_as parse key) (split_char (CHR 0x0A) (concat chunks)))))"
proof -
  note c = loadEvents_counts [OF assms]
  note a = accepted_counted [OF c(1)]
  show "count st = length (filter (counted parse) (split_char (CHR 0x0A) (concat chunks)))"
    using c(2) a by simp
  show "typeCounts st key =
           (if length (filter (counted_as parse key) (split_char (CHR 0x0A) (concat chunks))) = 0 then None
            else Some (length (filter (counted_as parse key) (split_char (CHR 0x0A) (concat chunks)))))"
    using c(3) a [of key] by (simp add: counts_are_def)
qed

lemma loadEvents_completes_binds:
  assumes "loadEvents parse chunks d = Inr st" "prepareInserts d = Inr stmts"
  shows "list_all (binds stmts) (map snd (accepted parse (split_char (CHR 0x0A) (concat chunks))))"
    and "concat (committed st) = map snd (accepted parse (split_char (CHR 0x0A) (concat chunks)))"
proof -
  let ?lines = "split_char (CHR 0x0A) (concat chunks)"
  have inv: "push_rows stmts krs s = Inr s' \<Longrightarrow>
        \<exists>new. committed s' = committed s @ new \<and> concat new @ batch s' = batch s @ map snd krs \<and>
          list_all (binds stmts) (concat new)" for krs s s'
  proof (induction krs arbitrary: s)
    case Nil
    then show ?case by simp
  next
    case (Cons kr krs)
    from Cons.prems obtain s1 where
      s1: "push_row stmts kr s = Inr s1" "push_rows stmts krs s1 = Inr s'"
      by (auto split: sum.splits)
    have "\<exists>new1. committed s1 = committed s @ new1 \<and> concat new1 @ batch s1 = batch s @ [snd kr] \<and>
          list_all (binds stmts) (concat new1)"
    proof (cases "BATCH_SIZE \<le> length (batch s) + 1")
      case False
      then have "s1 = s\<lparr> batch := batch s @ [snd kr],
                    typeCounts := (typeCounts s)
                      (fst kr \<mapsto> (case typeCounts s (fst kr) of None \<Rightarrow> 0 | Some n \<Rightarrow> n) + 1),
                    count := count s + 1 \<rparr>"
        using s1(1) by (simp add: push_row_def Let_def)
      then show ?thesis by (intro exI [of _ "[]"]) simp
    next
      case True
      then obtain d' where
        d': "run_rows stmts (batch s @ [snd kr]) (db s) = Inr d'"
        and e: "committed s1 = committed s @ [batch s @ [snd kr]]" "batch s1 = []"
        using s1(1) by (auto simp: push_row_def Let_def flush_def split: sum.splits)
      from run_rows_binds [OF d'] e show ?thesis
        by (intro exI [of _ "[batch s @ [snd kr]]"]) simp
    qed
    then obtain new1 where
      n1: "committed s1 = committed s @ new1" "concat new1 @ batch s1 = batch s @ [snd kr]"
          "list_all (binds stmts) (concat new1)" by blast
    from Cons.IH [OF s1(2)] obtain new2 where
      n2: "committed s' = committed s1 @ new2" "concat new2 @ batch s' = batch s1 @ map snd krs"
          "list_all (binds stmts) (concat new2)" by blast
    have "concat (new1 @ new2) @ batch s' = batch s @ map snd (kr # krs)"
      using n1(2) n2(2) by (metis append.assoc append_Cons append_Nil concat_append list.simps(9))
    then show ?case using n1 n2 by (intro exI [of _ "new1 @ new2"]) simp
  qed
  from assms obtain st' where
    p: "processLines (processLine parse stmts) ?lines (initial_loader d) = Inr st'"
    and f: "if 0 < length (batch st')
            then \<exists>d'. flush stmts (batch st') (db st') = Inr d' \<and>
                   st = st'\<lparr> db := d', committed := committed st' @ [batch st'] \<rparr>
            else st = st'"
    unfolding loadEvents_lines by (auto split: sum.splits if_splits)
  have nt: "no_throw parse ?lines"
    by (rule processLines_completes_no_throw [OF p])
  have "push_rows stmts (accepted parse ?lines) (initial_loader d) = Inr st'"
    using processLines_push_rows [OF nt] p by simp
  from inv [OF this] obtain new where
    n: "committed st' = new" "concat new @ batch st' = map snd (accepted parse ?lines)"
       "list_all (binds stmts) (concat new)"
    by (auto simp: initial_loader_def)
  have b: "list_all (binds stmts) (batch st')" "concat (committed st) = concat new @ batch st'"
  proof -
    show "list_all (binds stmts) (batch st')"
    proof (cases "0 < length (batch st')")
      case True
      with f obtain d' where "run_rows stmts (batch st') (db st') = Inr d'"
        by (auto simp: flush_def)
      then show ?thesis by (rule run_rows_binds)
    next
      case False
      then show ?thesis by simp
    qed
    show "concat (committed st) = concat new @ batch st'"
      using f n(1) by (cases "0 < length (batch st')") auto
  qed
  show "list_all (binds stmts) (map snd (accepted parse ?lines))"
    using n(2,3) b(1) by (metis list_all_append)
  show "concat (committed st) = map snd (accepted parse ?lines)"
    using b(2) n(2) by simp
qed

subsection \<open>Insert or ignore\<close>

text \<open>
  On an archive table the constraints of the store come to \<open>insert_or_ignore\<close>
  (\<open>violates_archive\<close>), so a flush of rows that can be bound leaves the store that
  \<open>store_row\<close> gives, row after row, and keeps it \<open>keyed\<close> (\<open>run_rows_keyed\<close>).
\<close>

lemma archive_columns:
  assumes "(k, schema) \<in> set EVENT_SCHEMAS"
  shows "\<exists>ns. table_columns (table_for schema) =
           \<lparr> col_name = ''id'', not_null = False, primary_key = True \<rparr> #
           \<lparr> col_name = ''created_at'', not_null = True, primary_key = False \<rparr> #
           \<lparr> col_name = ''public'', not_null = True, primary_key = False \<rparr> #
           map plain_column ns"
proof -
  have "table_columns (table_for schema) =
           \<lparr> col_name = ''id'', not_null = False, primary_key = True \<rparr> #
           \<lparr> col_name = ''created_at'', not_null = True, primary_key = False \<rparr> #
           \<lparr> col_name = ''public'', not_null = True, primary_key = False \<rparr> #
           map plain_column ([''actor_id'', ''actor_login'', ''actor_display_login'',
             ''actor_gravatar_id'', ''actor_avatar_url'', ''actor_url'', ''repo_id'', ''repo_name'',
             ''repo_url'', ''org_id'', ''org_login'', ''org_gravatar_id'', ''org_avatar_url'',
             ''org_url'', ''other''] @ columnNames (columns schema))"
    unfolding table_columns_table_for [OF assms] common_columns by simp
  then show ?thesis by blast
qed

lemma zip_plain_no_violation:
  "(c, v) \<in> set (zip (map plain_column ns) vs) \<Longrightarrow> \<not> not_null c \<and> \<not> primary_key c"
  by (auto simp: plain_column_def dest!: set_zip_leftD)

lemma id_in_zip:
  assumes "cols = \<lparr> col_name = ''id'', not_null = False, primary_key = True \<rparr> #
           \<lparr> col_name = ''created_at'', not_null = True, primary_key = False \<rparr> #
           \<lparr> col_name = ''public'', not_null = True, primary_key = False \<rparr> #
           map plain_column ns"
  shows "(\<lparr> col_name = ''id'', not_null = False, primary_key = True \<rparr>, v) \<in> set (zip cols r)
           \<longleftrightarrow> r \<noteq> [] \<and> hd r = v"
proof (cases r)
  case Nil
  then show ?thesis by simp
next
  case (Cons a r')
  have "(\<lparr> col_name = ''id'', not_null = False, primary_key = True \<rparr>, v)
          \<notin> set (zip (\<lparr> col_name = ''created_at'', not_null = True, primary_key = False \<rparr> #
           \<lparr> col_name = ''public'', not_null = True, primary_key = False \<rparr> #
           map plain_column ns) r')"
    by (auto simp: plain_column_def dest!: set_zip_leftD)
  then show ?thesis using Cons assms by auto
qed

lemma violates_archive:
  assumes "(k, schema) \<in> set EVENT_SCHEMAS" "table_columns t = table_columns (table_for schema)"
    "length vs = length (table_columns t)" "[] \<notin> set (table_rows t)"
  shows "violates t vs \<longleftrightarrow>
           (vs ! 1 = JNull \<or> vs ! 2 = JNull \<or> (hd vs \<noteq> JNull \<and> hd vs \<in> set (map hd (table_rows t))))"
proof -
  from archive_columns [OF assms(1)] assms(2) obtain ns where
    cols: "table_columns t =
           \<lparr> col_name = ''id'', not_null = False, primary_key = True \<rparr> #
           \<lparr> col_name = ''created_at'', not_null = True, primary_key = False \<rparr> #
           \<lparr> col_name = ''public'', not_null = True, primary_key = False \<rparr> #
           map plain_column ns" by auto
  from assms(3) cols obtain v0 v1 v2 vs' where vs: "vs = v0 # v1 # v2 # vs'"
    by (cases vs; cases "tl vs"; cases "tl (tl vs)") auto
  have idz: "(\<exists>r' \<in> set (table_rows t).
               (\<lparr> col_name = ''id'', not_null = False, primary_key = True \<rparr>, v0)
                 \<in> set (zip (table_columns t) r'))
             \<longleftrightarrow> v0 \<in> set (map hd (table_rows t))"
    using assms(4) by (auto simp: id_in_zip [OF cols] image_iff) metis
  have plain: "\<not> (\<exists>(c, v) \<in> set (zip (map plain_column ns) vs').
        (not_null c \<and> v = JNull) \<or>
        (primary_key c \<and> v \<noteq> JNull \<and>
           (\<exists>r' \<in> set (table_rows t). (c, v) \<in> set (zip (table_columns t) r'))))"
    by (auto dest: zip_plain_no_violation)
  have "violates t vs \<longleftrightarrow>
          (v0 \<noteq> JNull \<and> (\<exists>r' \<in> set (table_rows t).
               (\<lparr> col_name = ''id'', not_null = False, primary_key = True \<rparr>, v0)
                 \<in> set (zip (table_columns t) r'))) \<or> v1 = JNull \<or> v2 = JNull \<or>
          (\<exists>(c, v) \<in> set (zip (map plain_column ns) vs').
            (not_null c \<and> v = JNull) \<or>
            (primary_key c \<and> v \<noteq> JNull \<and>
               (\<exists>r' \<in> set (table_rows t). (c, v) \<in> set (zip (table_columns t) r'))))"
    unfolding violates_def vs
    by (subst (1) cols) simp
  then show ?thesis
    unfolding idz using plain vs by auto
qed

lemma keyedD:
  assumes "keyed d" "(k, s) \<in> set EVENT_SCHEMAS"
  obtains t where "d (table s) = Some t" "table_columns t = table_columns (table_for s)"
    "[] \<notin> set (table_rows t)" "distinct (filter (\<lambda>v. v \<noteq> JNull) (map hd (table_rows t)))"
proof -
  from assms have h: "has_archive_tables d" by (simp add: keyed_def)
  from has_archive_tablesD [OF h assms(2)] obtain t where
    t: "d (table s) = Some t" "table_columns t = table_columns (table_for s)" .
  from assms have "case d (table s) of None \<Rightarrow> False
         | Some t \<Rightarrow> [] \<notin> set (table_rows t) \<and>
             distinct (filter (\<lambda>v. v \<noteq> JNull) (map hd (table_rows t)))"
    unfolding keyed_def by blast
  with t show thesis using that by simp
qed

lemma row_targetE:
  assumes "binds archive_statements row"
  obtains key schema vs where "ToString (row_type row) = Inr key"
    "(key, schema) \<in> set EVENT_SCHEMAS" "archive_statements key = Some (statement_for schema)"
    "bind_arguments False (row_values row) = Inr vs"
    "length vs = length (table_columns (table_for schema))"
    "row_target row = Some (table schema, vs)"
proof -
  from bindsE [OF assms] obtain key s vs where
    b: "ToString (row_type row) = Inr key" "archive_statements key = Some s"
       "bind_arguments False (row_values row) = Inr vs" "length vs = parameters s" .
  from archive_statements_SomeD [OF b(2)] obtain schema where
    s: "(key, schema) \<in> set EVENT_SCHEMAS" "s = statement_for schema" .
  have l: "length vs = length (table_columns (table_for schema))"
    using b(4) s(2) table_for_columns [of schema]
    by (simp add: statement_for_def) (metis length_map)
  have "row_target row = Some (table schema, vs)"
    using b s(2) by (simp add: row_target_def statement_for_def)
  with b(1) s(1) b(2) [unfolded s(2)] b(3) l show thesis by (rule that)
qed

lemma keyed_update:
  assumes "keyed d" "d name = Some t" "[] \<notin> set rows"
    "distinct (filter (\<lambda>v. v \<noteq> JNull) (map hd rows))"
  shows "keyed (d(name \<mapsto> t\<lparr> table_rows := rows \<rparr>))"
proof -
  have h: "has_archive_tables (d(name \<mapsto> t\<lparr> table_rows := rows \<rparr>))"
    using assms(1,2) by (simp add: keyed_def has_archive_tables_update)
  have "\<forall>(k, s) \<in> set EVENT_SCHEMAS.
         case (d(name \<mapsto> t\<lparr> table_rows := rows \<rparr>)) (table s) of
           None \<Rightarrow> False
         | Some t \<Rightarrow>
             [] \<notin> set (table_rows t) \<and>
             distinct (filter (\<lambda>v. v \<noteq> JNull) (map hd (table_rows t)))"
  proof (clarify)
    fix k s assume ks: "(k, s) \<in> set EVENT_SCHEMAS"
    from keyedD [OF assms(1) ks] obtain t' where
      t': "d (table s) = Some t'" "[] \<notin> set (table_rows t')"
          "distinct (filter (\<lambda>v. v \<noteq> JNull) (map hd (table_rows t')))" by blast
    show "case (d(name \<mapsto> t\<lparr> table_rows := rows \<rparr>)) (table s) of
           None \<Rightarrow> False
         | Some t \<Rightarrow>
             [] \<notin> set (table_rows t) \<and>
             distinct (filter (\<lambda>v. v \<noteq> JNull) (map hd (table_rows t)))"
      using t' assms(3,4) by (cases "table s = name") simp_all
  qed
  with h show ?thesis by (simp add: keyed_def)
qed

lemma insert_or_ignore_keeps:
  assumes "[] \<notin> set rows" "distinct (filter (\<lambda>v. v \<noteq> JNull) (map hd rows))" "vs \<noteq> []"
  shows "[] \<notin> set (insert_or_ignore vs rows)"
    and "distinct (filter (\<lambda>v. v \<noteq> JNull) (map hd (insert_or_ignore vs rows)))"
  using assms by (auto simp: insert_or_ignore_def)

lemma run_row_keyed:
  assumes "keyed d" "binds archive_statements row"
  shows "run_rows archive_statements [row] d = Inr (store_row row d)" and "keyed (store_row row d)"
proof -
  from row_targetE [OF assms(2)] obtain key schema vs where
    r: "ToString (row_type row) = Inr key"
       "(key, schema) \<in> set EVENT_SCHEMAS" "archive_statements key = Some (statement_for schema)"
       "bind_arguments False (row_values row) = Inr vs"
       "length vs = length (table_columns (table_for schema))"
       "row_target row = Some (table schema, vs)" .
  from keyedD [OF assms(1) r(2)] obtain t where
    t: "d (table schema) = Some t" "table_columns t = table_columns (table_for schema)"
       "[] \<notin> set (table_rows t)" "distinct (filter (\<lambda>v. v \<noteq> JNull) (map hd (table_rows t)))" .
  have h: "has_archive_tables d" using assms(1) by (simp add: keyed_def)
  have p: "length vs = parameters (statement_for schema)"
    using r(5) table_for_columns [of schema]
    by (simp add: statement_for_def) (metis length_map)
  from run_insert_archive [OF h r(2) r(4) p] obtain t' where
    t': "d (table schema) = Some t'"
        "run_insert (statement_for schema) (row_values row) d =
           Inr (if violates t' vs then d
                else d(table schema \<mapsto> t'\<lparr> table_rows := table_rows t' @ [vs] \<rparr>))"
    by blast
  have "t' = t" using t(1) t'(1) by simp
  with t'(2) have
    ri: "run_insert (statement_for schema) (row_values row) d =
           Inr (if violates t vs then d
                else d(table schema \<mapsto> t\<lparr> table_rows := table_rows t @ [vs] \<rparr>))"
    by simp
  have v: "violates t vs \<longleftrightarrow>
           (vs ! 1 = JNull \<or> vs ! 2 = JNull \<or> (hd vs \<noteq> JNull \<and> hd vs \<in> set (map hd (table_rows t))))"
    using violates_archive [OF r(2) t(2) _ t(3)] r(5) t(2) by simp
  have "(if violates t vs then d
                else d(table schema \<mapsto> t\<lparr> table_rows := table_rows t @ [vs] \<rparr>))
          = store_row row d"
  proof (cases "violates t vs")
    case True
    then have "insert_or_ignore vs (table_rows t) = table_rows t"
      using v by (simp add: insert_or_ignore_def)
    then have "store_row row d = d(table schema \<mapsto> t)"
      unfolding store_row_def r(6) using t(1) by simp
    also have "\<dots> = d" using t(1) by (rule map_upd_triv)
    finally show ?thesis using True by simp
  next
    case False
    then have "insert_or_ignore vs (table_rows t) = table_rows t @ [vs]"
      using v by (simp add: insert_or_ignore_def)
    then show ?thesis
      unfolding store_row_def r(6) using t(1) False by simp
  qed
  then show "run_rows archive_statements [row] d = Inr (store_row row d)"
    using r(1,3) ri by simp
  have "vs \<noteq> []"
  proof -
    from archive_columns [OF r(2)] obtain ns where
      "table_columns (table_for schema) =
           \<lparr> col_name = ''id'', not_null = False, primary_key = True \<rparr> #
           \<lparr> col_name = ''created_at'', not_null = True, primary_key = False \<rparr> #
           \<lparr> col_name = ''public'', not_null = True, primary_key = False \<rparr> #
           map plain_column ns" by blast
    then show ?thesis using r(5) by auto
  qed
  from insert_or_ignore_keeps [OF t(3,4) this] have
    "keyed (d(table schema \<mapsto> t\<lparr> table_rows := insert_or_ignore vs (table_rows t) \<rparr>))"
    by (intro keyed_update [OF assms(1) t(1)])
  then show "keyed (store_row row d)"
    unfolding store_row_def r(6) using t(1) by simp
qed

lemma run_rows_keyed:
  "keyed d \<Longrightarrow> list_all (binds archive_statements) rows \<Longrightarrow>
   run_rows archive_statements rows d = Inr (foldl (\<lambda>d r. store_row r d) d rows) \<and>
   keyed (foldl (\<lambda>d r. store_row r d) d rows)"
proof (induction rows arbitrary: d)
  case Nil
  then show ?case by simp
next
  case (Cons row rows)
  from Cons.prems have b: "binds archive_statements row" "list_all (binds archive_statements) rows"
    by simp_all
  note r = run_row_keyed [OF Cons.prems(1) b(1)]
  from Cons.IH [OF r(2) b(2)] have
    i: "run_rows archive_statements rows (store_row row d)
          = Inr (foldl (\<lambda>d r. store_row r d) (store_row row d) rows)"
       "keyed (foldl (\<lambda>d r. store_row r d) (store_row row d) rows)" by simp_all
  have "run_rows archive_statements (row # rows) d
          = Inr (foldl (\<lambda>d r. store_row r d) (store_row row d) rows)"
    using run_rows_append [of archive_statements "[row]" rows d] r(1) i(1) by simp
  then show ?case using i(2) by simp
qed

lemma keyed_fresh: "keyed fresh_database"
  unfolding keyed_def
  using fresh_has_archive_tables
  by (auto simp: fresh_database_table table_for_def)

lemma at_most_one:
  assumes "distinct (filter P (map f xs))" "P v"
  shows "length (filter (\<lambda>x. f x = v) xs) \<le> 1"
  using assms
proof (induction xs)
  case Nil
  then show ?case by simp
next
  case (Cons x xs)
  show ?case
  proof (cases "f x = v")
    case False
    then show ?thesis using Cons by (simp split: if_splits)
  next
    case True
    then have "v \<notin> set (filter P (map f xs))" using Cons.prems by simp
    then have "filter (\<lambda>x. f x = v) xs = []"
      using Cons.prems(2) by (auto simp: filter_empty_conv)
    then show ?thesis using True by simp
  qed
qed

lemma keyed_one_row_per_id:
  assumes "keyed d"
  shows "one_row_per_id d"
  unfolding one_row_per_id_def
proof (clarify)
  fix k s i assume ks: "(k, s) \<in> set EVENT_SCHEMAS"
  from keyedD [OF assms ks] obtain t where
    t: "d (table s) = Some t" "distinct (filter (\<lambda>v. v \<noteq> JNull) (map hd (table_rows t)))"
    by blast
  have "length (filter (\<lambda>r. hd r = JStr i) (table_rows t)) \<le> 1"
    using t(2) by (rule at_most_one) simp
  then show "case d (table s) of None \<Rightarrow> True
         | Some t \<Rightarrow> length (filter (\<lambda>r. hd r = JStr i) (table_rows t)) \<le> 1"
    using t(1) by simp
qed

lemma sum_list_one_more:
  fixes g :: "'a \<Rightarrow> nat"
  assumes "distinct (map f xs)" "x \<in> set xs"
  shows "sum_list (map (\<lambda>y. if f y = f x then g y + c else g y) xs) = sum_list (map g xs) + c"
  using assms
proof (induction xs)
  case Nil
  then show ?case by simp
next
  case (Cons y ys)
  show ?case
  proof (cases "y = x")
    case True
    then have "\<forall>z \<in> set ys. f z \<noteq> f x" using Cons.prems(1) by (auto simp: image_iff)
    then have m: "map (\<lambda>y. if f y = f x then g y + c else g y) ys = map g ys"
      by (intro map_cong) simp_all
    show ?thesis unfolding list.map sum_list.Cons m using True by simp
  next
    case False
    then have x: "x \<in> set ys" using Cons.prems(2) by simp
    then have "f y \<noteq> f x" using Cons.prems(1) by auto
    then show ?thesis using Cons.IH x Cons.prems(1) by simp
  qed
qed

lemma total_rows_update:
  assumes "(k, schema) \<in> set EVENT_SCHEMAS" "d (table schema) = Some t"
    "length rows = length (table_rows t) + c"
  shows "total_rows (d(table schema \<mapsto> t\<lparr> table_rows := rows \<rparr>)) = total_rows d + c"
proof -
  let ?f = "\<lambda>y::string \<times> EventSchema. table (snd y)"
  let ?g = "\<lambda>y::string \<times> EventSchema. rows_in d (table (snd y))"
  have "(\<lambda>y. rows_in (d(table schema \<mapsto> t\<lparr> table_rows := rows \<rparr>)) (table (snd y)))
          = (\<lambda>y. if ?f y = ?f (k, schema) then ?g y + c else ?g y)"
    using assms(2,3) by (auto simp: rows_in_def fun_eq_iff)
  moreover have "distinct (map ?f EVENT_SCHEMAS)"
    using registry_tables_distinct by (simp add: table_snd)
  ultimately have
    "sum_list (map (\<lambda>y. rows_in (d(table schema \<mapsto> t\<lparr> table_rows := rows \<rparr>)) (table (snd y)))
        EVENT_SCHEMAS) = sum_list (map ?g EVENT_SCHEMAS) + c"
    using sum_list_one_more [of ?f EVENT_SCHEMAS "(k, schema)" ?g c] assms(1) by simp
  then show ?thesis
    by (simp add: total_rows_def split_def)
qed

lemma store_row_total:
  assumes "keyed d" "binds archive_statements row"
  shows "total_rows (store_row row d) = total_rows d + (if ignored d row then 0 else 1)"
proof -
  from row_targetE [OF assms(2)] obtain key schema vs where
    r: "(key, schema) \<in> set EVENT_SCHEMAS" "row_target row = Some (table schema, vs)"
    by blast
  from keyedD [OF assms(1) r(1)] obtain t where t: "d (table schema) = Some t" by blast
  have i: "ignored d row \<longleftrightarrow>
        (vs ! 1 = JNull \<or> vs ! 2 = JNull \<or> (hd vs \<noteq> JNull \<and> hd vs \<in> set (map hd (table_rows t))))"
    unfolding ignored_def r(2) using t by simp
  have s: "store_row row d = d(table schema \<mapsto> t\<lparr> table_rows := insert_or_ignore vs (table_rows t) \<rparr>)"
    unfolding store_row_def r(2) using t by simp
  have "length (insert_or_ignore vs (table_rows t))
          = length (table_rows t) + (if ignored d row then 0 else 1)"
    unfolding i by (simp add: insert_or_ignore_def)
  then show ?thesis
    unfolding s
    using total_rows_update [of key schema d t "insert_or_ignore vs (table_rows t)"
        "if ignored d row then 0 else 1"] r(1) t
    by simp
qed

lemma store_rows_total:
  "keyed d \<Longrightarrow> list_all (binds archive_statements) rows \<Longrightarrow>
   total_rows (foldl (\<lambda>d row. store_row row d) d rows) + ignored_inserts rows d
     = total_rows d + length rows"
proof (induction rows arbitrary: d)
  case Nil
  then show ?case by simp
next
  case (Cons row rows)
  from Cons.prems have b: "binds archive_statements row" "list_all (binds archive_statements) rows"
    by simp_all
  note k = run_row_keyed(2) [OF Cons.prems(1) b(1)]
  from Cons.IH [OF k b(2)] store_row_total [OF Cons.prems(1) b(1)]
  show ?case by simp
qed

lemma total_rows_fresh: "total_rows fresh_database = 0"
proof -
  have "\<forall>x \<in> set EVENT_SCHEMAS. (\<lambda>(k, s). rows_in fresh_database (table s)) x = 0"
    by (auto simp: rows_in_def fresh_database_table table_for_def)
  then show ?thesis
    unfolding total_rows_def by (simp add: sum_list_nonneg_eq_0_iff)
qed

subsection \<open>Loading into a keyed store\<close>

lemma loadEvents_keyed:
  assumes "keyed d" "loadEvents parse chunks d = Inr st"
  shows "no_throw parse (split_char (CHR 0x0A) (concat chunks))"
    and "list_all (binds archive_statements) (map snd (accepted parse (split_char (CHR 0x0A) (concat chunks))))"
    and "count st = length (accepted parse (split_char (CHR 0x0A) (concat chunks)))"
    and "committed st = batches BATCH_SIZE (map snd (accepted parse (split_char (CHR 0x0A) (concat chunks))))"
    and "db st = foldl (\<lambda>d row. store_row row d) d
                   (map snd (accepted parse (split_char (CHR 0x0A) (concat chunks))))"
    and "keyed (db st)"
    and "typeCounts st = (\<lambda>key.
           if tally key (accepted parse (split_char (CHR 0x0A) (concat chunks))) = 0 then None
           else Some (tally key (accepted parse (split_char (CHR 0x0A) (concat chunks)))))"
proof -
  let ?krs = "accepted parse (split_char (CHR 0x0A) (concat chunks))"
  have h: "has_archive_tables d" using assms(1) by (simp add: keyed_def)
  note p = prepareInserts_archive [OF h]
  note c = loadEvents_counts [OF assms(2)]
  note b = loadEvents_completes_binds [OF assms(2) p]
  from loadEvents_spec [OF h c(1) b(1)] assms(2) have
    s: "committed st = batches BATCH_SIZE (map snd ?krs)"
       "run_rows archive_statements (map snd ?krs) d = Inr (db st)"
    by auto
  note k = run_rows_keyed [OF assms(1) b(1)]
  show "no_throw parse (split_char (CHR 0x0A) (concat chunks))" by (rule c(1))
  show "list_all (binds archive_statements) (map snd ?krs)" by (rule b(1))
  show "count st = length ?krs" by (rule c(2))
  show "committed st = batches BATCH_SIZE (map snd ?krs)" by (rule s(1))
  show "db st = foldl (\<lambda>d row. store_row row d) d (map snd ?krs)" using k s(2) by simp
  then show "keyed (db st)" using k by simp
  show "typeCounts st = (\<lambda>key. if tally key ?krs = 0 then None else Some (tally key ?krs))"
    using c(3) by (auto simp: counts_are_def fun_eq_iff)
qed

lemma loadEvents_completes:
  assumes "keyed d" "no_throw parse (split_char (CHR 0x0A) (concat chunks))"
    "list_all (binds archive_statements) (map snd (accepted parse (split_char (CHR 0x0A) (concat chunks))))"
  shows "\<exists>st. loadEvents parse chunks d = Inr st"
proof -
  have "has_archive_tables d" using assms(1) by (simp add: keyed_def)
  from loadEvents_spec [OF this assms(2,3)] show ?thesis by blast
qed

lemma loadEvents_report:
  assumes "keyed d" "no_throw parse (split_char (CHR 0x0A) (concat chunks))"
    "list_all (binds archive_statements) (map snd (accepted parse (split_char (CHR 0x0A) (concat chunks))))"
  shows "report (loadEvents parse chunks d) =
           Some (length (accepted parse (split_char (CHR 0x0A) (concat chunks))),
                 (\<lambda>key. if tally key (accepted parse (split_char (CHR 0x0A) (concat chunks))) = 0 then None
                        else Some (tally key (accepted parse (split_char (CHR 0x0A) (concat chunks))))),
                 foldl (\<lambda>d row. store_row row d) d
                   (map snd (accepted parse (split_char (CHR 0x0A) (concat chunks)))),
                 batches BATCH_SIZE (map snd (accepted parse (split_char (CHR 0x0A) (concat chunks)))))"
proof -
  from loadEvents_completes [OF assms] obtain st where st: "loadEvents parse chunks d = Inr st"
    by blast
  note k = loadEvents_keyed [OF assms(1) st]
  show ?thesis
    unfolding st report_def using k(3,4,5,7) by simp
qed

subsection \<open>The sample feed\<close>

lemma trim_watch_line: "trim watch_line \<noteq> []"
  by (simp add: trim_def watch_line_def is_space_def)

lemma otherFields_watch_event: "otherFields watch_event = []"
  by (simp add: otherFields_def watch_event_def Object_keys_def)

lemma commonValues_watch_event:
  "commonValues watch_event =
     Inr [JStr ''1'', JStr ''t'', JNum ''1'', JNull, JNull, JNull, JNull, JNull, JNull, JNull, JNull,
          JNull, JNull, JNull, JNull, JNull, JNull, JNull]"
  by (simp add: commonValues_def otherFields_watch_event)
     (simp add: watch_event_def property_def or_empty_def truthy_def coalesce_def nullish_def)

lemma line_row_watch: "line_row sample_parse watch_line = Inr (Some (''WatchEvent'', watch_row))"
proof -
  have p: "sample_parse watch_line = Some watch_event" by (simp add: sample_parse_def)
  have n: "\<not> nullish watch_event" by (simp add: nullish_def watch_event_def)
  have t: "property watch_event ''type'' = JStr ''WatchEvent''"
    by (simp add: watch_event_def property_def)
  have s: "map_of EVENT_SCHEMAS ''WatchEvent'' = Some watch_schema"
    by (rule registry_lookup [OF watch_schema_registered])
  have e: "extract_fn watch_schema (or_empty (property watch_event ''payload'')) = Inr [JStr ''started'']"
    by (simp add: watch_schema_def watch_event_def property_def or_empty_def truthy_def
        reading_def nullish_def coalesce_def)
  show ?thesis
    unfolding line_row_def
    by (simp add: trim_watch_line p n t s e commonValues_watch_event watch_row_def watch_values_def)
qed

lemma line_row_blank: "line_row parse [] = Inr None"
  by (simp add: line_row_def trim_def)

lemma split_replicate_watch:
  "split_char (CHR 0x0A) (concat (replicate n (watch_line @ [CHR 0x0A]))) = replicate n watch_line @ [[]]"
proof (induction n)
  case 0
  show ?case by simp
next
  case (Suc n)
  have "split_char (CHR 0x0A) (watch_line @ CHR 0x0A # concat (replicate n (watch_line @ [CHR 0x0A])))
          = split_char (CHR 0x0A) watch_line
            @ split_char (CHR 0x0A) (concat (replicate n (watch_line @ [CHR 0x0A])))"
    by (rule split_char_sep)
  then show ?case
    using Suc by (simp add: split_char_no_sep [OF watch_line_no_lf])
qed

lemma accepted_replicate_watch:
  "accepted sample_parse (replicate n watch_line @ [[]]) = replicate n (''WatchEvent'', watch_row)"
  by (induction n) (simp_all add: line_row_watch line_row_blank)

lemma no_throw_replicate_watch: "no_throw sample_parse (replicate n watch_line @ [[]])"
  by (simp add: no_throw_def line_row_watch line_row_blank list_all_iff)

lemma archive_statements_watch: "archive_statements ''WatchEvent'' = Some (statement_for watch_schema)"
  by (simp add: archive_statements_def registry_lookup [OF watch_schema_registered])

lemma bind_watch_values: "bind_arguments False watch_values = Inr watch_values"
  by (simp add: watch_values_def bindable_def bound_value_def)

lemma parameters_watch: "parameters (statement_for watch_schema) = 19"
  by (simp add: statement_for_def created_columns_eq [OF watch_schema_registered]
      watch_columnNames common_names_def)

lemma binds_watch: "binds archive_statements watch_row"
  by (simp add: binds_def watch_row_def archive_statements_watch bind_watch_values parameters_watch)
     (simp add: watch_values_def)

lemma row_target_watch: "row_target watch_row = Some (''watch_events'', watch_values)"
  by (simp add: row_target_def watch_row_def archive_statements_watch bind_watch_values parameters_watch)
     (simp add: watch_values_def statement_for_def watch_schema_def)

lemma fresh_watch_events: "fresh_database ''watch_events'' = Some (table_for watch_schema)"
  using fresh_database_table [OF watch_schema_registered] by (simp add: watch_schema_def)

lemma store_watch_fresh:
  "store_row watch_row fresh_database = fresh_database(''watch_events'' \<mapsto> watch_table)"
proof -
  have "insert_or_ignore watch_values [] = [watch_values]"
    by (simp add: insert_or_ignore_def watch_values_def)
  then show ?thesis
    by (simp add: store_row_def row_target_watch fresh_watch_events watch_table_def table_for_def)
qed

lemma store_watch_again:
  "store_row watch_row (fresh_database(''watch_events'' \<mapsto> watch_table))
     = fresh_database(''watch_events'' \<mapsto> watch_table)"
proof -
  have "insert_or_ignore watch_values [watch_values] = [watch_values]"
    by (simp add: insert_or_ignore_def watch_values_def)
  then show ?thesis
    by (simp add: store_row_def row_target_watch watch_table_def)
qed

lemma store_watch_replicate:
  "foldl (\<lambda>d row. store_row row d) fresh_database (replicate (Suc n) watch_row)
     = fresh_database(''watch_events'' \<mapsto> watch_table)"
proof -
  have "foldl (\<lambda>d row. store_row row d) (fresh_database(''watch_events'' \<mapsto> watch_table))
          (replicate n watch_row) = fresh_database(''watch_events'' \<mapsto> watch_table)"
    by (induction n) (simp_all only: replicate.simps foldl.simps store_watch_again)
  then show ?thesis by (simp only: replicate.simps foldl.simps store_watch_fresh)
qed

lemma ignored_watch_fresh: "\<not> ignored fresh_database watch_row"
  by (simp add: ignored_def row_target_watch fresh_watch_events table_for_def)
     (simp add: watch_values_def)

lemma ignored_watch_again: "ignored (fresh_database(''watch_events'' \<mapsto> watch_table)) watch_row"
  by (simp add: ignored_def row_target_watch watch_table_def)
     (simp add: watch_values_def)

lemma ignored_inserts_watch:
  "ignored_inserts (replicate (Suc n) watch_row) fresh_database = n"
proof -
  have "ignored_inserts (replicate n watch_row) (fresh_database(''watch_events'' \<mapsto> watch_table)) = n"
    by (induction n)
       (simp_all only: replicate.simps ignored_inserts.simps store_watch_again ignored_watch_again
          if_True plus_1_eq_Suc)
  then show ?thesis
    by (simp only: replicate.simps ignored_inserts.simps store_watch_fresh ignored_watch_fresh
          if_False add_0)
qed

lemma total_rows_watch: "total_rows (fresh_database(''watch_events'' \<mapsto> watch_table)) = 1"
proof -
  have "total_rows (fresh_database(table watch_schema \<mapsto>
          (table_for watch_schema)\<lparr> table_rows := [watch_values] \<rparr>)) = total_rows fresh_database + 1"
    by (rule total_rows_update [OF watch_schema_registered])
       (simp_all add: fresh_database_table [OF watch_schema_registered] table_for_def)
  then show ?thesis
    by (simp add: total_rows_fresh watch_table_def table_for_def) (simp add: watch_schema_def)
qed

lemma batches_one_more:
  assumes "0 < n"
  shows "batches n (replicate (Suc n) x) = [replicate n x, [x]]"
proof -
  have "[replicate n x, [x]] = batches n (replicate (Suc n) x)"
    using assms by (intro batches_unique) (simp_all add: replicate_append_same)
  then show ?thesis by simp
qed

lemma batches_short:
  assumes "xs \<noteq> []" "length xs \<le> n"
  shows "batches n xs = [xs]"
proof -
  have "0 < n" using assms by (cases xs) auto
  then have "[xs] = batches n xs"
    using assms by (intro batches_unique) simp_all
  then show ?thesis by simp
qed

lemma tally_replicate: "tally key (replicate n (k, row)) = (if key = k then n else 0)"
  by (simp add: tally_def)

lemma counts_replicate:
  "(\<lambda>key. if tally key (replicate (Suc n) (k, row)) = 0 then None
          else Some (tally key (replicate (Suc n) (k, row)))) = [k \<mapsto> Suc n]"
  by (auto simp: tally_replicate fun_eq_iff simp del: replicate.simps)

lemma report_watch_replicate:
  "report (loadEvents sample_parse (replicate (Suc n) (watch_line @ [CHR 0x0A])) fresh_database) =
     Some (Suc n, [''WatchEvent'' \<mapsto> Suc n], fresh_database(''watch_events'' \<mapsto> watch_table),
           batches BATCH_SIZE (replicate (Suc n) watch_row))"
proof -
  let ?chunks = "replicate (Suc n) (watch_line @ [CHR 0x0A])"
  have l: "split_char (CHR 0x0A) (concat ?chunks) = replicate (Suc n) watch_line @ [[]]"
    by (rule split_replicate_watch)
  have a: "accepted sample_parse (split_char (CHR 0x0A) (concat ?chunks))
             = replicate (Suc n) (''WatchEvent'', watch_row)"
    unfolding l by (rule accepted_replicate_watch)
  have nt: "no_throw sample_parse (split_char (CHR 0x0A) (concat ?chunks))"
    unfolding l by (rule no_throw_replicate_watch)
  have b: "list_all (binds archive_statements)
             (map snd (accepted sample_parse (split_char (CHR 0x0A) (concat ?chunks))))"
    unfolding a by (simp add: binds_watch list_all_iff)
  have m: "map snd (replicate (Suc n) (''WatchEvent'', watch_row)) = replicate (Suc n) watch_row"
    by simp
  show ?thesis
    unfolding loadEvents_report [OF keyed_fresh nt b] a m counts_replicate store_watch_replicate
    by simp
qed

lemma report_watch_threshold:
  "report (loadEvents sample_parse (replicate (Suc BATCH_SIZE) (watch_line @ ''\<newline>'')) fresh_database) =
     Some (Suc BATCH_SIZE, [''WatchEvent'' \<mapsto> Suc BATCH_SIZE],
           fresh_database(''watch_events'' \<mapsto> watch_table),
           [replicate BATCH_SIZE watch_row, [watch_row]])"
  unfolding report_watch_replicate batches_one_more [OF BATCH_SIZE_pos] ..

lemma report_watch_two:
  "report (loadEvents sample_parse [watch_line @ ''\<newline>'', watch_line @ ''\<newline>''] fresh_database)
     = Some (2, [''WatchEvent'' \<mapsto> 2], fresh_database(''watch_events'' \<mapsto> watch_table),
             [[watch_row, watch_row]])"
proof -
  have r: "replicate (Suc 1) (watch_line @ ''\<newline>'') = [watch_line @ ''\<newline>'', watch_line @ ''\<newline>'']"
    by simp
  have b: "batches BATCH_SIZE (replicate (Suc 1) watch_row) = [[watch_row, watch_row]]"
    by (simp add: batches_short BATCH_SIZE_def)
  show ?thesis
    using report_watch_replicate [of 1] unfolding r b by (simp add: numeral_2_eq_2)
qed

lemma counted_watch_line: "counted sample_parse watch_line"
proof -
  have p: "sample_parse watch_line = Some watch_event" by (simp add: sample_parse_def)
  have n: "\<not> nullish watch_event" by (simp add: nullish_def watch_event_def)
  have t: "property watch_event ''type'' = JStr ''WatchEvent''"
    by (simp add: watch_event_def property_def)
  show ?thesis
    by (simp add: counted_def trim_watch_line p n t registry_lookup [OF watch_schema_registered])
qed

lemma not_counted_blank: "\<not> counted parse []"
  by (simp add: counted_def trim_def)

subsection \<open>Batch boundaries\<close>

text \<open>
  C3 as the spec states it fails: 10001 lines with the record of \<open>watch_line\<close> give 10001
  rows of one type. They are flushed in two transactions, of 10000 rows and of one row,
  and the count is 10001; but every insert after the first is ignored, since the
  identifier is stored already, and the table holds one row.
\<close>

theorem duplicate_rows_flushed_not_stored:
  "report (loadEvents sample_parse (replicate (Suc BATCH_SIZE) (watch_line @ ''\<newline>'')) fresh_database) =
     Some (Suc BATCH_SIZE, [''WatchEvent'' \<mapsto> Suc BATCH_SIZE],
           fresh_database(''watch_events'' \<mapsto> watch_table),
           [replicate BATCH_SIZE watch_row, [watch_row]]) \<and>
   total_rows (fresh_database(''watch_events'' \<mapsto> watch_table)) = 1 \<and>
   table_rows watch_table = [watch_values] \<and>
   BATCH_SIZE = 10000"
  using report_watch_threshold total_rows_watch
  by (simp add: watch_table_def BATCH_SIZE_def)

text \<open>
  C3, amended. When the lines of the input give \<open>N\<close> rows, of one type or of several, with
  \<open>N\<close> above the threshold of 10000, no line makes \<open>processLine\<close> throw and every row can
  be bound to the statement of its type, loadEvents completes on the database that
  \<open>createArchiveDatabase\<close> makes. Its flushes are the consecutive batches of 10000 rows,
  each flushed when the batch reaches the threshold, and the rest (if any) flushed
  after the last line: at least two transactions, every row in exactly one of them, in
  order, so the insert of every row is executed once; and the returned count is \<open>N\<close>.
  The rows stored are \<open>N\<close> less the inserts that are ignored (the identifier is stored
  already, or \<^verbatim>\<open>created_at\<close> is \<^verbatim>\<open>NULL\<close>): \<open>N\<close> rows are stored when no insert is ignored.
\<close>

theorem batches_flushed:
  assumes "no_throw parse (split_char (CHR 0x0A) (concat chunks))"
    and "list_all (binds archive_statements) (map snd (accepted parse (split_char (CHR 0x0A) (concat chunks))))"
    and "BATCH_SIZE < length (accepted parse (split_char (CHR 0x0A) (concat chunks)))"
  shows "\<exists>st. loadEvents parse chunks fresh_database = Inr st \<and>
           count st = length (accepted parse (split_char (CHR 0x0A) (concat chunks))) \<and>
           committed st = batches BATCH_SIZE (map snd (accepted parse (split_char (CHR 0x0A) (concat chunks)))) \<and>
           concat (committed st) = map snd (accepted parse (split_char (CHR 0x0A) (concat chunks))) \<and>
           2 \<le> length (committed st) \<and>
           list_all (\<lambda>b. 0 < length b \<and> length b \<le> BATCH_SIZE) (committed st) \<and>
           list_all (\<lambda>b. length b = BATCH_SIZE) (butlast (committed st)) \<and>
           db st = foldl (\<lambda>d row. store_row row d) fresh_database
                     (map snd (accepted parse (split_char (CHR 0x0A) (concat chunks)))) \<and>
           total_rows (db st)
             + ignored_inserts (map snd (accepted parse (split_char (CHR 0x0A) (concat chunks)))) fresh_database
             = length (accepted parse (split_char (CHR 0x0A) (concat chunks)))"
proof -
  let ?rows = "map snd (accepted parse (split_char (CHR 0x0A) (concat chunks)))"
  from loadEvents_completes [OF keyed_fresh assms(1,2)] obtain st where
    st: "loadEvents parse chunks fresh_database = Inr st" by blast
  note k = loadEvents_keyed [OF keyed_fresh st]
  have "BATCH_SIZE < length ?rows" using assms(3) by simp
  then have two: "2 \<le> length (batches BATCH_SIZE ?rows)"
    by (rule length_batches [OF BATCH_SIZE_pos])
  have t: "total_rows (foldl (\<lambda>d row. store_row row d) fresh_database ?rows)
             + ignored_inserts ?rows fresh_database = length ?rows"
    using store_rows_total [OF keyed_fresh assms(2)] by (simp add: total_rows_fresh)
  show ?thesis
    using st k(3,4,5) two t concat_batches [OF BATCH_SIZE_pos, of ?rows]
      batches_lengths [OF BATCH_SIZE_pos, of ?rows] batches_full [OF BATCH_SIZE_pos, of ?rows]
    by (intro exI [of _ st]) simp
qed

theorem batches_flushed_witness:
  "no_throw sample_parse
     (split_char (CHR 0x0A) (concat (replicate (Suc BATCH_SIZE) (watch_line @ ''\<newline>'')))) \<and>
   list_all (binds archive_statements)
     (map snd (accepted sample_parse
        (split_char (CHR 0x0A) (concat (replicate (Suc BATCH_SIZE) (watch_line @ ''\<newline>'')))))) \<and>
   BATCH_SIZE < length (accepted sample_parse
        (split_char (CHR 0x0A) (concat (replicate (Suc BATCH_SIZE) (watch_line @ ''\<newline>''))))) \<and>
   (\<exists>st. loadEvents sample_parse (replicate (Suc BATCH_SIZE) (watch_line @ ''\<newline>'')) fresh_database
            = Inr st \<and>
      count st = Suc BATCH_SIZE \<and>
      committed st = [replicate BATCH_SIZE watch_row, [watch_row]] \<and>
      db st = fresh_database(''watch_events'' \<mapsto> watch_table) \<and>
      total_rows (db st) + BATCH_SIZE = Suc BATCH_SIZE)"
proof -
  let ?chunks = "replicate (Suc BATCH_SIZE) (watch_line @ ''\<newline>'')"
  have l: "split_char (CHR 0x0A) (concat ?chunks) = replicate (Suc BATCH_SIZE) watch_line @ [[]]"
    by (rule split_replicate_watch)
  have a: "accepted sample_parse (split_char (CHR 0x0A) (concat ?chunks))
             = replicate (Suc BATCH_SIZE) (''WatchEvent'', watch_row)"
    unfolding l by (rule accepted_replicate_watch)
  have nt: "no_throw sample_parse (split_char (CHR 0x0A) (concat ?chunks))"
    unfolding l by (rule no_throw_replicate_watch)
  have b: "list_all (binds archive_statements)
             (map snd (accepted sample_parse (split_char (CHR 0x0A) (concat ?chunks))))"
    unfolding a by (simp add: binds_watch list_all_iff)
  have n: "BATCH_SIZE < length (accepted sample_parse (split_char (CHR 0x0A) (concat ?chunks)))"
    unfolding a by simp
  have m: "map snd (replicate (Suc BATCH_SIZE) (''WatchEvent'', watch_row))
             = replicate (Suc BATCH_SIZE) watch_row"
    by simp
  from batches_flushed [OF nt b n] obtain st where
    st: "loadEvents sample_parse ?chunks fresh_database = Inr st"
        "count st = length (accepted sample_parse (split_char (CHR 0x0A) (concat ?chunks)))"
        "committed st = batches BATCH_SIZE
           (map snd (accepted sample_parse (split_char (CHR 0x0A) (concat ?chunks))))"
        "db st = foldl (\<lambda>d row. store_row row d) fresh_database
           (map snd (accepted sample_parse (split_char (CHR 0x0A) (concat ?chunks))))"
        "total_rows (db st)
           + ignored_inserts
               (map snd (accepted sample_parse (split_char (CHR 0x0A) (concat ?chunks)))) fresh_database
           = length (accepted sample_parse (split_char (CHR 0x0A) (concat ?chunks)))"
    by blast
  have "count st = Suc BATCH_SIZE" using st(2) unfolding a by simp
  moreover have "committed st = [replicate BATCH_SIZE watch_row, [watch_row]]"
    using st(3) unfolding a m batches_one_more [OF BATCH_SIZE_pos] .
  moreover have "db st = fresh_database(''watch_events'' \<mapsto> watch_table)"
    using st(4) unfolding a m store_watch_replicate .
  moreover have "total_rows (db st) + BATCH_SIZE = Suc BATCH_SIZE"
    using st(5) unfolding a m ignored_inserts_watch by simp
  ultimately show ?thesis using nt b n st(1) by blast
qed

subsection \<open>Counts and stored rows\<close>

text \<open>
  C10. When loadEvents completes, the count it returns is the number of lines that are
  not blank, decode, and have a type whose string is a key of the registry, and the
  count of a type is the number of these lines with that type; the identifier of a line
  plays no part, so a line whose identifier was seen before is counted. The counts can
  exceed the rows stored: two lines with the record of \<open>watch_line\<close> are counted as 2, and
  one row is stored.
\<close>

theorem counts_include_ignored_rows:
  "(loadEvents parse chunks d = Inr st \<longrightarrow>
      count st = length (filter (counted parse) (split_char (CHR 0x0A) (concat chunks))) \<and>
      (\<forall>key. typeCounts st key =
         (if length (filter (counted_as parse key) (split_char (CHR 0x0A) (concat chunks))) = 0 then None
          else Some (length (filter (counted_as parse key) (split_char (CHR 0x0A) (concat chunks)))))))
   \<and> report (loadEvents sample_parse [watch_line @ ''\<newline>'', watch_line @ ''\<newline>''] fresh_database)
        = Some (2, [''WatchEvent'' \<mapsto> 2], fresh_database(''watch_events'' \<mapsto> watch_table),
                [[watch_row, watch_row]])
   \<and> total_rows (fresh_database(''watch_events'' \<mapsto> watch_table)) = 1"
proof (intro conjI impI allI)
  assume l: "loadEvents parse chunks d = Inr st"
  show "count st = length (filter (counted parse) (split_char (CHR 0x0A) (concat chunks)))"
    by (rule counts_general(1) [OF l])
  fix key
  show "typeCounts st key =
         (if length (filter (counted_as parse key) (split_char (CHR 0x0A) (concat chunks))) = 0 then None
          else Some (length (filter (counted_as parse key) (split_char (CHR 0x0A) (concat chunks)))))"
    by (rule counts_general(2) [OF l])
next
  show "report (loadEvents sample_parse [watch_line @ ''\<newline>'', watch_line @ ''\<newline>''] fresh_database)
        = Some (2, [''WatchEvent'' \<mapsto> 2], fresh_database(''watch_events'' \<mapsto> watch_table),
                [[watch_row, watch_row]])"
    by (rule report_watch_two)
next
  show "total_rows (fresh_database(''watch_events'' \<mapsto> watch_table)) = 1"
    by (rule total_rows_watch)
qed

theorem counts_include_ignored_rows_witness:
  "\<exists>st. loadEvents sample_parse [watch_line @ ''\<newline>'', watch_line @ ''\<newline>''] fresh_database = Inr st \<and>
      split_char (CHR 0x0A) (concat [watch_line @ ''\<newline>'', watch_line @ ''\<newline>''])
        = [watch_line, watch_line, []] \<and>
      counted sample_parse watch_line \<and> \<not> counted sample_parse [] \<and>
      count st = 2 \<and>
      db st = fresh_database(''watch_events'' \<mapsto> watch_table) \<and>
      total_rows (db st) = 1"
proof -
  let ?chunks = "[watch_line @ ''\<newline>'', watch_line @ ''\<newline>'']"
  have r: "report (loadEvents sample_parse ?chunks fresh_database)
        = Some (2, [''WatchEvent'' \<mapsto> 2], fresh_database(''watch_events'' \<mapsto> watch_table),
                [[watch_row, watch_row]])"
    using counts_include_ignored_rows by blast
  then obtain st where st: "loadEvents sample_parse ?chunks fresh_database = Inr st"
    and d: "db st = fresh_database(''watch_events'' \<mapsto> watch_table)"
    by (auto simp: report_def split: sum.splits)
  have l: "split_char (CHR 0x0A) (concat ?chunks) = [watch_line, watch_line, []]"
    using split_replicate_watch [of "Suc 1"] by simp
  have "count st = length (filter (counted sample_parse) (split_char (CHR 0x0A) (concat ?chunks)))"
    using counts_include_ignored_rows [of sample_parse ?chunks fresh_database st] st by blast
  then have c: "count st = 2"
    unfolding l by (simp add: counted_watch_line not_counted_blank)
  show ?thesis
    using st l c d counted_watch_line not_counted_blank [of sample_parse] total_rows_watch
    by (intro exI [of _ st]) simp
qed

subsection \<open>Running twice\<close>

lemma paths_differ: "gz_path date hour \<noteq> json_path date hour"
  by (simp add: gz_path_def json_path_def)

lemma download_resolved:
  assumes "download srv url rs = Some y"
  shows "fst y = Resolved \<longrightarrow> fst (snd y) \<noteq> None"
  using assms
proof (induction rule: download.raw_induct [rotated 1, consumes 1])
  case (1 dl srv url rs y)
  show ?case
  proof (cases "srv url")
    case (Throws e opened)
    then show ?thesis using 1(2) by auto
  next
    case (TransportError e opened)
    then show ?thesis using 1(2) by auto
  next
    case (Response code loc content opened)
    show ?thesis
    proof (cases "(code = 301 \<or> code = 302) \<and> opened = Before")
      case True
      then have "dl srv loc (rs @ [url]) = Some y" using 1(2) Response by auto
      from 1(1) [OF this] show ?thesis .
    next
      case False
      then show ?thesis using 1(2) Response by (auto split: if_splits)
    qed
  qed
qed

lemma loadEvents_concat:
  assumes "concat chunks = concat chunks'"
  shows "loadEvents parse chunks d = loadEvents parse chunks' d"
  unfolding loadEvents_lines assms ..

lemma main_parsed:
  assumes "parseArgs (now w) (argv w) = Inr (date, hour)"
  shows "main parse gunzip chunking w =
     (case (if files w (gz_path date hour) \<noteq> None then Some (Inr w)
            else case download (server w) (archive_url date hour) (requests w) of
                   None \<Rightarrow> None
                 | Some (result, at_dest, rs) \<Rightarrow>
                     (let w1 = w\<lparr> requests := rs, files := (files w)(gz_path date hour := at_dest) \<rparr>
                      in case result of
                           Resolved \<Rightarrow> Some (Inr w1)
                         | Rejected e \<Rightarrow> Some (Inl (e, w1))
                         | Crashed e \<Rightarrow> Some (Inl (e, w1)))) of
        None \<Rightarrow> None
      | Some (Inl (e, w1)) \<Rightarrow> Some (Inl e, w1)
      | Some (Inr w1) \<Rightarrow>
          (case (if files w1 (json_path date hour) \<noteq> None then Inr w1
                 else decompress gunzip (gz_path date hour) (json_path date hour) w1) of
             Inl (e, w2) \<Rightarrow> Some (Inl e, w2)
           | Inr w2 \<Rightarrow>
               (case loadEvents parse
                       (chunking (case files w2 (json_path date hour) of Some text \<Rightarrow> text | None \<Rightarrow> []))
                       fresh_database of
                  Inl (e, d) \<Rightarrow> Some (Inl e, w2\<lparr> archive_db := Some d \<rparr>)
                | Inr st \<Rightarrow> Some (Inr (count st), w2\<lparr> archive_db := Some (db st) \<rparr>))))"
  unfolding main_def assms gz_path_def json_path_def archive_url_def Let_def createArchiveDatabase_fresh
    sum.case prod.case
  by (rule refl)

lemma main_cached:
  assumes "parseArgs (now w) (argv w) = Inr (date, hour)"
    "files w (gz_path date hour) \<noteq> None" "files w (json_path date hour) = Some content"
  shows "main parse gunzip chunking w =
     (case loadEvents parse (chunking content) fresh_database of
        Inl (e, d) \<Rightarrow> Some (Inl e, w\<lparr> archive_db := Some d \<rparr>)
      | Inr st \<Rightarrow> Some (Inr (count st), w\<lparr> archive_db := Some (db st) \<rparr>))"
  unfolding main_parsed [OF assms(1)] using assms(2,3) by simp

lemma main_success:
  assumes "main parse gunzip chunking w = Some (Inr n, w')"
  obtains date hour w2 content st where
    "parseArgs (now w) (argv w) = Inr (date, hour)"
    "now w2 = now w" "argv w2 = argv w"
    "files w2 (gz_path date hour) \<noteq> None" "files w2 (json_path date hour) = Some content"
    "loadEvents parse (chunking content) fresh_database = Inr st"
    "n = count st" "w' = w2\<lparr> archive_db := Some (db st) \<rparr>"
proof -
  obtain date hour where pa: "parseArgs (now w) (argv w) = Inr (date, hour)"
    using assms by (cases "parseArgs (now w) (argv w)") (auto simp: main_def)
  let ?gz = "gz_path date hour" and ?js = "json_path date hour"
  note m = assms [unfolded main_parsed [OF pa]]
  obtain w1 where w1: "now w1 = now w" "argv w1 = argv w" "files w1 ?gz \<noteq> None"
    and m1: "(case (if files w1 ?js \<noteq> None then Inr w1 else decompress gunzip ?gz ?js w1) of
             Inl (e, w2) \<Rightarrow> Some (Inl e, w2)
           | Inr w2 \<Rightarrow>
               (case loadEvents parse
                       (chunking (case files w2 ?js of Some text \<Rightarrow> text | None \<Rightarrow> []))
                       fresh_database of
                  Inl (e, d) \<Rightarrow> Some (Inl e, w2\<lparr> archive_db := Some d \<rparr>)
                | Inr st \<Rightarrow> Some (Inr (count st), w2\<lparr> archive_db := Some (db st) \<rparr>)))
          = Some (Inr n, w')"
  proof (cases "files w ?gz \<noteq> None")
    case True
    then show ?thesis using m that [of w] by simp
  next
    case False
    then obtain result at_dest rs where
      d: "download (server w) (archive_url date hour) (requests w) = Some (result, at_dest, rs)"
      using m by (cases "download (server w) (archive_url date hour) (requests w)") auto
    have r: "result = Resolved"
      using m False d by (cases result) (simp_all add: Let_def)
    then have "at_dest \<noteq> None" using download_resolved [OF d] by simp
    then show ?thesis
      using m False d r
        that [of "w\<lparr> requests := rs, files := (files w)(?gz := at_dest) \<rparr>"]
      by (simp add: Let_def)
  qed
  obtain w2 where w2: "now w2 = now w" "argv w2 = argv w" "files w2 ?gz \<noteq> None"
      "files w2 ?js \<noteq> None"
    and m2: "(case loadEvents parse
                       (chunking (case files w2 ?js of Some text \<Rightarrow> text | None \<Rightarrow> []))
                       fresh_database of
                  Inl (e, d) \<Rightarrow> Some (Inl e, w2\<lparr> archive_db := Some d \<rparr>)
                | Inr st \<Rightarrow> Some (Inr (count st), w2\<lparr> archive_db := Some (db st) \<rparr>))
          = Some (Inr n, w')"
  proof (cases "files w1 ?js \<noteq> None")
    case True
    then show ?thesis using m1 w1 that [of w1] by simp
  next
    case False
    then obtain w2 where dc: "decompress gunzip ?gz ?js w1 = Inr w2"
      using m1 by (cases "decompress gunzip ?gz ?js w1") auto
    then obtain content where e: "w2 = w1\<lparr> files := (files w1)(?js \<mapsto> content) \<rparr>"
      by (auto simp: decompress_def split: option.splits sum.splits)
    have f: "now w2 = now w" "argv w2 = argv w" "files w2 ?gz \<noteq> None" "files w2 ?js \<noteq> None"
      using e w1 paths_differ [of date hour] by simp_all
    have "(case loadEvents parse
                       (chunking (case files w2 ?js of Some text \<Rightarrow> text | None \<Rightarrow> []))
                       fresh_database of
                  Inl (e, d) \<Rightarrow> Some (Inl e, w2\<lparr> archive_db := Some d \<rparr>)
                | Inr st \<Rightarrow> Some (Inr (count st), w2\<lparr> archive_db := Some (db st) \<rparr>))
          = Some (Inr n, w')"
      using m1 False dc by simp
    with f show ?thesis by (rule that)
  qed
  from w2(4) obtain content where t: "files w2 ?js = Some content" by blast
  from m2 obtain st where
    st: "loadEvents parse (chunking content) fresh_database = Inr st"
    and e: "n = count st" "w' = w2\<lparr> archive_db := Some (db st) \<rparr>"
    unfolding t by (cases "loadEvents parse (chunking content) fresh_database") auto
  from pa w2(1,2,3) t st e show thesis by (rule that)
qed

lemma concat_chop: "concat (chop n cur s) = cur @ s"
  by (induction s arbitrary: cur) simp_all

lemma parseInt_5: "parseInt ''5'' = Some 5"
  by (simp add: parseInt_def is_space_def is_digit_def digit_value_def)

lemma watch_file_not_Nil: "watch_file \<noteq> []"
  by (simp add: watch_file_def)

lemma main_world_watch:
  "main sample_parse sample_gunzip sample_chunking world_watch = Some (Inr 2, world_watch_loaded)"
proof -
  let ?gz = "gz_path ''2024-01-01'' 5" and ?js = "json_path ''2024-01-01'' 5"
  let ?url = "archive_url ''2024-01-01'' 5"
  have pa: "parseArgs (now world_watch) (argv world_watch) = Inr (''2024-01-01'', 5)"
    by (simp add: world_watch_def parseArgs_def date_format_2024_01_01 parseInt_5)
  have u: "https ?url" by (simp add: https_def archive_url_def)
  have d: "download watch_server ?url [] = Some (Resolved, Some watch_file, [?url])"
    by (subst download.simps) (simp add: watch_server_def u)
  have w: "server world_watch = watch_server" "requests world_watch = []"
    "files world_watch = Map.empty"
    by (simp_all add: world_watch_def)
  let ?w1 = "world_watch\<lparr> requests := [?url], files := (Map.empty)(?gz := Some watch_file) \<rparr>"
  have g: "sample_gunzip watch_file = Inr watch_file"
    by (simp add: sample_gunzip_def watch_file_not_Nil)
  have dc: "decompress sample_gunzip ?gz ?js ?w1
              = Inr (?w1\<lparr> files := (files ?w1)(?js \<mapsto> watch_file) \<rparr>)"
    by (simp add: decompress_def g)
  have j: "files ?w1 ?js = None"
    using paths_differ [of "''2024-01-01''" 5] by simp
  have "concat (sample_chunking watch_file) = concat [watch_line @ ''\<newline>'', watch_line @ ''\<newline>'']"
    by (simp add: sample_chunking_def concat_chop watch_file_def)
  then have "report (loadEvents sample_parse (sample_chunking watch_file) fresh_database)
        = Some (2, [''WatchEvent'' \<mapsto> 2], fresh_database(''watch_events'' \<mapsto> watch_table),
                [[watch_row, watch_row]])"
    using report_watch_two loadEvents_concat by metis
  then obtain st where st: "loadEvents sample_parse (sample_chunking watch_file) fresh_database = Inr st"
    "count st = 2" "db st = fresh_database(''watch_events'' \<mapsto> watch_table)"
    by (auto simp: report_def split: sum.splits)
  have "main sample_parse sample_gunzip sample_chunking world_watch
          = Some (Inr 2, ?w1\<lparr> files := (files ?w1)(?js \<mapsto> watch_file),
                    archive_db := Some (fresh_database(''watch_events'' \<mapsto> watch_table)) \<rparr>)"
    unfolding main_parsed [OF pa] w d
    by (simp add: Let_def j dc st)
  also have "?w1\<lparr> files := (files ?w1)(?js \<mapsto> watch_file),
                    archive_db := Some (fresh_database(''watch_events'' \<mapsto> watch_table)) \<rparr>
               = world_watch_loaded"
    by (simp add: world_watch_def world_watch_loaded_def gz_path_def json_path_def archive_url_def
        dec_int_def dec_5 fun_eq_iff)
  finally show ?thesis .
qed

text \<open>
  C4. After a run that completes, every table of the store holds at most one row for an
  identifier, whatever identifiers the records of the input share; and a second run in
  the world the first one leaves (the same arguments and clock, the files it cached,
  any cutting of the file into chunks) returns the same count and leaves the same
  store, so the same rows in every table.
\<close>

theorem reingestion_idempotent:
  "main parse gunzip chunking w = Some (Inr n, w') \<and>
   (\<forall>content. concat (chunking' content) = concat (chunking content)) \<longrightarrow>
     (\<exists>d. archive_db w' = Some d \<and> one_row_per_id d) \<and>
     main parse gunzip chunking' w' = Some (Inr n, w')"
proof (intro impI, elim conjE)
  assume m: "main parse gunzip chunking w = Some (Inr n, w')"
    and c: "\<forall>content. concat (chunking' content) = concat (chunking content)"
  from main_success [OF m] obtain date hour w2 content st where
    s: "parseArgs (now w) (argv w) = Inr (date, hour)"
       "now w2 = now w" "argv w2 = argv w"
       "files w2 (gz_path date hour) \<noteq> None" "files w2 (json_path date hour) = Some content"
       "loadEvents parse (chunking content) fresh_database = Inr st"
       "n = count st" "w' = w2\<lparr> archive_db := Some (db st) \<rparr>" .
  have k: "keyed (db st)" by (rule loadEvents_keyed(6) [OF keyed_fresh s(6)])
  have a: "archive_db w' = Some (db st)" using s(8) by simp
  have p: "parseArgs (now w') (argv w') = Inr (date, hour)" using s(1,2,3,8) by simp
  have f: "files w' (gz_path date hour) \<noteq> None" "files w' (json_path date hour) = Some content"
    using s(4,5,8) by simp_all
  have l: "loadEvents parse (chunking' content) fresh_database = Inr st"
    using loadEvents_concat [of "chunking' content" "chunking content" parse fresh_database] c s(6)
    by simp
  have "main parse gunzip chunking' w' = Some (Inr (count st), w'\<lparr> archive_db := Some (db st) \<rparr>)"
    unfolding main_cached [OF p f] l by simp
  also have "w'\<lparr> archive_db := Some (db st) \<rparr> = w'" unfolding s(8) by simp
  finally have "main parse gunzip chunking' w' = Some (Inr n, w')" using s(7) by simp
  with a keyed_one_row_per_id [OF k]
  show "(\<exists>d. archive_db w' = Some d \<and> one_row_per_id d) \<and>
     main parse gunzip chunking' w' = Some (Inr n, w')" by blast
qed

theorem reingestion_idempotent_witness:
  "main sample_parse sample_gunzip sample_chunking world_watch = Some (Inr 2, world_watch_loaded) \<and>
   (\<forall>content. concat (chop 3 [] content) = concat (sample_chunking content)) \<and>
   archive_db world_watch_loaded = Some (fresh_database(''watch_events'' \<mapsto> watch_table)) \<and>
   one_row_per_id (fresh_database(''watch_events'' \<mapsto> watch_table)) \<and>
   table_rows watch_table = [watch_values] \<and>
   main sample_parse sample_gunzip (chop 3 []) world_watch_loaded = Some (Inr 2, world_watch_loaded)"
proof -
  have c: "\<forall>content. concat (chop 3 [] content) = concat (sample_chunking content)"
    by (simp add: sample_chunking_def concat_chop)
  have a: "archive_db world_watch_loaded = Some (fresh_database(''watch_events'' \<mapsto> watch_table))"
    by (simp add: world_watch_loaded_def)
  from reingestion_idempotent [of sample_parse sample_gunzip sample_chunking world_watch 2
      world_watch_loaded "chop 3 []"] main_world_watch c
  have r: "(\<exists>d. archive_db world_watch_loaded = Some d \<and> one_row_per_id d)"
    "main sample_parse sample_gunzip (chop 3 []) world_watch_loaded = Some (Inr 2, world_watch_loaded)"
    by blast+
  from r(1) a have "one_row_per_id (fresh_database(''watch_events'' \<mapsto> watch_table))" by simp
  with main_world_watch c a r(2) show ?thesis by (simp add: watch_table_def)
qed

end
